theory Spec2Isabelle
  imports Main "HOL-Library.AList"
begin

section \<open>Python primitives used by the server\<close>

text \<open>
  The server is \<^verbatim>\<open>src/server.py\<close>. A Python \<^verbatim>\<open>str\<close> is modelled as a \<^typ>\<open>string\<close>
  whose characters are its Unicode code points, each below 256; text with a code point
  from 256 on is outside the type. Python dictionaries keep insertion order, which the
  server observes (\<^verbatim>\<open>list(self.groups)[0:5]\<close>, iteration over
  \<^verbatim>\<open>self.connected_clients.items()\<close>), so a dictionary is an association list:
  \<^const>\<open>map_of\<close> reads a key, \<^const>\<open>AList.update\<close> is \<^verbatim>\<open>d[k] = v\<close> (replace in place, or
  append a new key at the end), \<^const>\<open>AList.delete\<close> is \<^verbatim>\<open>d.pop(k)\<close>.
\<close>

datatype py_error = KeyError | IndexError | ValueError | TypeError | UnboundLocalError

abbreviation newline :: char where
  "newline \<equiv> CHR 0x0A"

abbreviation apostrophe :: char where
  "apostrophe \<equiv> CHR 0x27"

text \<open>\<^verbatim>\<open>data.split(" ")\<close>: cut at every single space; the result is never empty.\<close>

fun split_sp :: "string \<Rightarrow> string list" where
  "split_sp [] = [[]]"
| "split_sp (c # cs) =
     (if c = CHR '' '' then [] # split_sp cs
      else (case split_sp cs of
              [] \<Rightarrow> [[c]]
            | w # ws \<Rightarrow> (c # w) # ws))"

text \<open>\<^verbatim>\<open>sep.join(xs)\<close>.\<close>

fun py_join :: "string \<Rightarrow> string list \<Rightarrow> string" where
  "py_join sep [] = []"
| "py_join sep [x] = x"
| "py_join sep (x # y # ys) = x @ sep @ py_join sep (y # ys)"

text \<open>\<^verbatim>\<open>str(n)\<close> for an integer: decimal digits, with a minus sign when negative.\<close>

definition digit_char :: "nat \<Rightarrow> char" where
  "digit_char d = ''0123456789'' ! d"

fun str_nat :: "nat \<Rightarrow> string" where
  "str_nat n = (if n < 10 then [digit_char n] else str_nat (n div 10) @ [digit_char (n mod 10)])"

declare str_nat.simps [simp del]

definition py_str :: "int \<Rightarrow> string" where
  "py_str i = (if i < 0 then CHR ''-'' # str_nat (nat (- i)) else str_nat (nat i))"

text \<open>
  \<^verbatim>\<open>int(s)\<close> for a string: surrounding whitespace is skipped, one sign is allowed, then
  decimal digits, where single underscores may separate digits. Anything else raises
  ValueError, here \<^const>\<open>None\<close>. The whitespace \<^verbatim>\<open>int\<close> skips is tab, line feed,
  vertical tab, form feed, carriage return and space, and of the code points from 128 to
  255 the next-line character U+0085 and the no-break space U+00A0; the separators
  U+001C to U+001F, which \<^verbatim>\<open>str.strip\<close> removes, are not among them. Below 256 the only
  decimal digits are \<open>0\<close> to \<open>9\<close>. CPython from 3.11 on also refuses a string of more than
  4300 digits; that limit is left out: a request is at most the 1024 bytes of one
  \<^verbatim>\<open>recv\<close>, and the keys the server writes to its files are sizes of boards.
\<close>

definition is_space :: "char \<Rightarrow> bool" where
  "is_space c \<longleftrightarrow> c \<in> set [CHR 0x09, CHR 0x0A, CHR 0x0B, CHR 0x0C, CHR 0x0D, CHR 0x20,
                             CHR 0x85, CHR 0xA0]"

definition strip :: "string \<Rightarrow> string" where
  "strip s = rev (dropWhile is_space (rev (dropWhile is_space s)))"

fun position :: "'a \<Rightarrow> 'a list \<Rightarrow> nat option" where
  "position x [] = None"
| "position x (y # ys) = (if x = y then Some 0 else map_option Suc (position x ys))"

definition digit_val :: "char \<Rightarrow> nat option" where
  "digit_val c = position c ''0123456789''"

fun parse_digits :: "nat \<Rightarrow> string \<Rightarrow> nat option" where
  "parse_digits acc [] = Some acc"
| "parse_digits acc [c] =
     (case digit_val c of None \<Rightarrow> None | Some v \<Rightarrow> Some (10 * acc + v))"
| "parse_digits acc (c # d # ds) =
     (if c = CHR ''_'' then
        (case digit_val d of None \<Rightarrow> None | Some v \<Rightarrow> parse_digits (10 * acc + v) ds)
      else
        (case digit_val c of None \<Rightarrow> None | Some v \<Rightarrow> parse_digits (10 * acc + v) (d # ds)))"

definition parse_nat :: "string \<Rightarrow> nat option" where
  "parse_nat s =
     (case s of
        [] \<Rightarrow> None
      | c # cs \<Rightarrow> (case digit_val c of None \<Rightarrow> None | Some v \<Rightarrow> parse_digits v cs))"

definition py_int :: "string \<Rightarrow> int option" where
  "py_int s =
     (case strip s of
        [] \<Rightarrow> None
      | c # cs \<Rightarrow>
          if c = CHR ''-'' then map_option (\<lambda>n. - int n) (parse_nat cs)
          else if c = CHR ''+'' then map_option int (parse_nat cs)
          else map_option int (parse_nat (c # cs)))"

text \<open>
  A posting date is a \<^verbatim>\<open>datetime.date\<close> while the server runs and the ISO string that
  \<^verbatim>\<open>default_serializer\<close> wrote once it has been loaded back from \<^verbatim>\<open>boards.json\<close>.
  \<^verbatim>\<open>str(d)\<close> of a date is its \<^verbatim>\<open>isoformat()\<close>.
\<close>

datatype pydate = DateObj nat nat nat | DateStr string

definition zero_pad :: "nat \<Rightarrow> string \<Rightarrow> string" where
  "zero_pad w s = replicate (w - length s) (CHR ''0'') @ s"

fun isoformat :: "pydate \<Rightarrow> string" where
  "isoformat (DateObj y m d) =
     zero_pad 4 (str_nat y) @ ''-'' @ zero_pad 2 (str_nat m) @ ''-'' @ zero_pad 2 (str_nat d)"
| "isoformat (DateStr t) = t"

section \<open>Server state\<close>

text \<open>
  The member list of a group is a Python list object that \<^verbatim>\<open>append\<close> and \<^verbatim>\<open>remove\<close>
  mutate in place, and \<^verbatim>\<open>copy.deepcopy\<close> makes a new object. To keep that visible, lists
  of user names live in a store \<^term>\<open>heap\<close> from addresses to values; \<^term>\<open>groups\<close> and
  the \<^verbatim>\<open>users_at_time_of_posting\<close> field of a message hold addresses, and
  \<^term>\<open>next_addr\<close> is the first address never handed out. A socket is an opaque handle.
\<close>

type_synonym addr = nat
type_synonym sock = nat

record client =
  name :: string
  group :: string
  client_socket :: sock

record board_message =
  sender :: string
  date :: pydate
  subject :: string
  message :: string
  users_at_time_of_posting :: addr

type_synonym board = "(int \<times> board_message) list"

record server =
  client_ids :: nat
  connected_clients :: "(nat \<times> client) list"
  groups :: "(string \<times> addr) list"
  boards :: "(string \<times> board) list"
  heap :: "addr \<Rightarrow> string list"
  next_addr :: addr

text \<open>What a handler wrote to which socket, in order.\<close>

type_synonym sends = "(sock \<times> string) list"

text \<open>
  A handler returns the state it leaves, the sends it made, and the exception that
  escaped it, if any.
\<close>

type_synonym result = "server \<times> sends \<times> py_error option"

text \<open>\<^verbatim>\<open>Server.__init__\<close>: the list of the default group is the object at address 0.\<close>

definition server_init :: server where
  "server_init =
     \<lparr>client_ids = 0, connected_clients = [], groups = [(''default'', 0)],
      boards = [(''default'', [])], heap = (\<lambda>_. []), next_addr = 1\<rparr>"

text \<open>\<^verbatim>\<open>self.groups[g]\<close> read by value, when the group exists.\<close>

definition members :: "server \<Rightarrow> string \<Rightarrow> string list option" where
  "members s g = map_option (heap s) (map_of (groups s) g)"

definition quoted :: "string \<Rightarrow> string" where
  "quoted g = apostrophe # g @ [apostrophe]"

section \<open>Connecting\<close>

text \<open>\<^verbatim>\<open>add_clients_groups\<close>, the loop at its end first.\<close>

definition ensure_board :: "string \<Rightarrow> server \<Rightarrow> server" where
  "ensure_board g s =
     (if map_of (boards s) g = None then s\<lparr>boards := AList.update g [] (boards s)\<rparr> else s)"

definition add_clients_groups :: "server \<Rightarrow> nat \<Rightarrow> string \<Rightarrow> string \<Rightarrow> sock \<Rightarrow> server" where
  "add_clients_groups s client_id client_name client_group sk =
     (let s1 = s\<lparr>client_ids := client_ids s + 1,
                 connected_clients :=
                   AList.update client_id
                     \<lparr>name = client_name, group = client_group, client_socket = sk\<rparr>
                     (connected_clients s)\<rparr>;
          s2 = (case map_of (groups s1) client_group of
                  None \<Rightarrow>
                    s1\<lparr>groups := AList.update client_group (next_addr s1) (groups s1),
                       heap := (heap s1)(next_addr s1 := [client_name]),
                       next_addr := next_addr s1 + 1\<rparr>
                | Some a \<Rightarrow>
                    if client_name \<notin> set (heap s1 a)
                    then s1\<lparr>heap := (heap s1)(a := heap s1 a @ [client_name])\<rparr>
                    else s1);
          s3 = ensure_board ''default'' s2
      in fold ensure_board (map fst (groups s3)) s3)"

text \<open>\<^verbatim>\<open>broadcast_client_join\<close>: every registered session but the new one.\<close>

definition broadcast_client_join :: "server \<Rightarrow> nat \<Rightarrow> string \<Rightarrow> sends" where
  "broadcast_client_join s client_id client_name =
     map (\<lambda>(cid, c). (client_socket c,
            client_name @ '' has joined the server (client ID #'' @ py_str (int client_id) @ ''). ''))
         (filter (\<lambda>(cid, c). cid \<noteq> client_id) (connected_clients s))"

text \<open>
  Lines 102 to 110 of \<^verbatim>\<open>open_connection\<close>: the reply to the handshake. The variable
  \<^verbatim>\<open>example_groups_message\<close> is bound only when there is a group to list.
\<close>

definition handshake_reply :: "server \<Rightarrow> nat \<Rightarrow> py_error + string" where
  "handshake_reply s client_id =
     (let example_groups = take 5 (map fst (groups s)) in
      if length example_groups > 0 then
        (let m = '' Current server groups: '' @ py_join '', '' example_groups;
             example_groups_message = (if length example_groups > 5 then m @ ''...'' else m)
         in Inr (''id '' @ py_str (int client_id) @ example_groups_message))
      else Inl UnboundLocalError)"

text \<open>
  The handshake of \<^verbatim>\<open>open_connection\<close>, up to the dispatch loop: the state it leaves, what
  it sent, and either the exception that ended the thread or the locals
  \<^verbatim>\<open>(client_id, client_name)\<close> the loop runs with.
\<close>

definition handshake :: "server \<Rightarrow> sock \<Rightarrow> string \<Rightarrow> server \<times> sends \<times> (py_error + nat \<times> string)" where
  "handshake s sk client_info =
     (case split_sp client_info of
        client_name # client_group # _ \<Rightarrow>
          (let client_id = client_ids s;
               s' = add_clients_groups s client_id client_name client_group sk;
               announced = broadcast_client_join s' client_id client_name
           in case handshake_reply s' client_id of
                Inl e \<Rightarrow> (s', announced, Inl e)
              | Inr reply \<Rightarrow> (s', announced @ [(sk, reply)], Inr (client_id, client_name)))
      | _ \<Rightarrow> (s, [], Inl IndexError))"

section \<open>Command handlers\<close>

text \<open>
  Each handler runs under \<^verbatim>\<open>self.lock\<close>, so it is one atomic step on the state.
  Writes to the server's own standard output are left out. A send to a socket is taken
  to succeed.
\<close>

text \<open>\<^verbatim>\<open>sorted_items[-2:]\<close>.\<close>

definition last_two :: "'a list \<Rightarrow> 'a list" where
  "last_two xs = drop (length xs - 2) xs"

text \<open>
  \<^verbatim>\<open>info["name"] is client_name\<close>, where \<^verbatim>\<open>client_name\<close> is the name in the registry entry
  of \<open>client_id\<close>: object identity. The name of an entry is a string of its own, cut out
  of that session's handshake, so two names are one object when they belong to the same
  entry; and CPython keeps a single object for the empty string and for each string of
  one character below 256, so equal names of length at most 1 are one object too.
\<close>

definition same_name_object :: "nat \<Rightarrow> client \<Rightarrow> nat \<Rightarrow> client \<Rightarrow> bool" where
  "same_name_object cid info client_id c \<longleftrightarrow>
     cid = client_id \<or> (name info = name c \<and> length (name c) \<le> 1)"

text \<open>\<^verbatim>\<open>handle_join\<close>.\<close>

definition handle_join :: "server \<Rightarrow> nat \<Rightarrow> string \<Rightarrow> result" where
  "handle_join s client_id g =
     (case map_of (connected_clients s) client_id of
        None \<Rightarrow> (s, [], Some KeyError)
      | Some c \<Rightarrow>
          (case map_of (groups s) g of
             None \<Rightarrow>
               (s\<lparr>groups := AList.update g (next_addr s) (groups s),
                  boards := AList.update g [] (boards s),
                  heap := (heap s)(next_addr s := [name c]),
                  next_addr := next_addr s + 1\<rparr>,
                [(client_socket c, ''Added to new group '' @ quoted g @ ''.'')], None)
           | Some a \<Rightarrow>
               if name c \<in> set (heap s a) then
                 (s, [(client_socket c, ''Already part of group '' @ quoted g @ ''.'')], None)
               else
                 (let s' = s\<lparr>heap := (heap s)(a := heap s a @ [name c])\<rparr>;
                      announced =
                        map (\<lambda>(cid, info). (client_socket info,
                               ''New member '' @ name c @ '' has joined group '' @ quoted g @ ''.''))
                            (filter (\<lambda>(cid, info). \<not> same_name_object cid info client_id c \<and>
                                            name info \<in> set (heap s' a))
                                    (connected_clients s'))
                  in case map_of (boards s') g of
                       None \<Rightarrow> (s', announced, Some KeyError)
                     | Some b \<Rightarrow>
                         (let messages_text =
                                (if length b > 0 then
                                   newline # ''Previous messages:'' @ [newline] @
                                   concat (map (\<lambda>k. ''Message ID: '' @ py_str k @ '' + '' @ [newline])
                                               (last_two (sort (map fst b))))
                                 else newline # ''No previous messages.'');
                              return_message =
                                ''Added to group '' @ quoted g @ ''.'' @ [newline] @
                                ''Current Members: '' @ py_join '', '' (heap s' a) @ messages_text
                          in (s', announced @ [(client_socket c, return_message)], None)))))"

text \<open>
  \<^verbatim>\<open>handle_post\<close>; \<open>today\<close> is what \<^verbatim>\<open>datetime.datetime.now().date()\<close> returns. The
  deep copy of the member list is a new object at \<^term>\<open>next_addr s\<close>.
\<close>

definition handle_post :: "server \<Rightarrow> nat \<Rightarrow> string \<Rightarrow> string \<Rightarrow> string list \<Rightarrow> pydate \<Rightarrow> result" where
  "handle_post s client_id g subj words today =
     (case map_of (connected_clients s) client_id of
        None \<Rightarrow> (s, [], Some KeyError)
      | Some c \<Rightarrow>
          (case map_of (groups s) g of
             None \<Rightarrow> (s, [], Some KeyError)
           | Some a \<Rightarrow>
               if \<not> name c \<in> set (heap s a) then
                 (s, [(client_socket c, ''Error: Client not member of group.'')], None)
               else
                 (case map_of (boards s) g of
                    None \<Rightarrow> (s, [], Some KeyError)
                  | Some b \<Rightarrow>
                      (let message_id = int (length b);
                           entry = \<lparr>sender = name c, date = today, subject = subj,
                                    message = py_join '' '' words,
                                    users_at_time_of_posting = next_addr s\<rparr>;
                           s' = s\<lparr>boards := AList.update g (AList.update message_id entry b) (boards s),
                                  heap := (heap s)(next_addr s := heap s a),
                                  next_addr := next_addr s + 1\<rparr>
                       in (s',
                           map (\<lambda>(cid, info). (client_socket info,
                                  ''New message posted in '' @ g @ '' by '' @ name c @
                                  '' with ID#'' @ py_str message_id @ ''.''))
                               (filter (\<lambda>(cid, info). name info \<in> set (heap s' a))
                                       (connected_clients s')),
                           None)))))"

text \<open>
  The body of the \<^verbatim>\<open>try\<close> in \<^verbatim>\<open>handle_message\<close>: the text it sends, or the exception it
  raises (a missing board, an id that \<^verbatim>\<open>int\<close> rejects, a missing id). A stored message is
  a record, never \<^verbatim>\<open>None\<close>.
\<close>

definition message_text :: "board_message \<Rightarrow> string" where
  "message_text m =
     sender m @ '' on '' @ isoformat (date m) @ '' ('' @ subject m @ ''): '' @ message m"

definition too_far_text :: string where
  "too_far_text = ''Error: You are trying to access a message from too far in the past from when you joined the current group. (Limit: 2)''"

definition read_message :: "server \<Rightarrow> string \<Rightarrow> string \<Rightarrow> string \<Rightarrow> py_error + string" where
  "read_message s sender_name g message_id =
     (case map_of (boards s) g of
        None \<Rightarrow> Inl KeyError
      | Some b \<Rightarrow>
          (case py_int message_id of
             None \<Rightarrow> Inl ValueError
           | Some i \<Rightarrow>
               (case map_of b i of
                  None \<Rightarrow> Inl KeyError
                | Some m \<Rightarrow>
                    if sender_name \<notin> set (heap s (users_at_time_of_posting m)) then
                      (if sender_name \<in> set (heap s (users_at_time_of_posting m))
                       then Inr (message_text m)
                       else Inr too_far_text)
                    else Inr (message_text m))))"

definition handle_message :: "server \<Rightarrow> nat \<Rightarrow> string \<Rightarrow> string \<Rightarrow> result" where
  "handle_message s client_id g message_id =
     (case map_of (connected_clients s) client_id of
        None \<Rightarrow> (s, [], Some KeyError)
      | Some c \<Rightarrow>
          (case map_of (groups s) g of
             None \<Rightarrow> (s, [], Some KeyError)
           | Some a \<Rightarrow>
               if \<not> name c \<in> set (heap s a) then
                 (s, [(client_socket c, ''Error: Client not member of group.'')], None)
               else
                 (case read_message s (name c) g message_id of
                    Inl e \<Rightarrow> (s, [(client_socket c, ''Error: Message ID does not exist.'')], None)
                  | Inr txt \<Rightarrow> (s, [(client_socket c, txt)], None))))"

text \<open>\<^verbatim>\<open>handle_leave\<close>; \<^verbatim>\<open>list.remove\<close> deletes the first occurrence.\<close>

definition handle_leave :: "server \<Rightarrow> nat \<Rightarrow> string \<Rightarrow> result" where
  "handle_leave s client_id g =
     (case map_of (connected_clients s) client_id of
        None \<Rightarrow> (s, [], Some KeyError)
      | Some c \<Rightarrow>
          (case map_of (groups s) g of
             None \<Rightarrow> (s, [], Some KeyError)
           | Some a \<Rightarrow>
               if \<not> name c \<in> set (heap s a) then
                 (s, [(client_socket c,
                       ''Error: Client not member of group '' @ quoted g @ ''.'')], None)
               else
                 (let s' = s\<lparr>heap := (heap s)(a := remove1 (name c) (heap s a))\<rparr>
                  in (s',
                      (client_socket c, ''You have left group '' @ quoted g @ ''.'') #
                      map (\<lambda>(cid, info). (client_socket info,
                             ''User '' @ name c @ '' has left group '' @ quoted g @ ''.''))
                          (filter (\<lambda>(cid, info). name info \<in> set (heap s' a))
                                  (connected_clients s')),
                      None))))"

section \<open>The dispatch loop\<close>

definition help_msg :: string where
  "help_msg =
     ''A %connect command followed by the address and port number of a running bulletin board server to connect to.'' @ [newline] @
     ''A %join command to join the single message board.'' @ [newline] @
     ''A %post command followed by the message subject and the message content or main body to post a message to the board.'' @ [newline] @
     ''A %users command to retrieve a list of users in the same group.'' @ [newline] @
     ''A %leave command to leave the group.'' @ [newline] @
     ''A %message command followed by message ID to retrieve the content of the message.'' @ [newline] @
     ''An %exit command to disconnect from the server and exit the client program.'' @ [newline] @
     ''A %groups command to retrieve a list of all groups that can be joined.'' @ [newline] @
     ''A %groupjoin command followed by the group id/name to join a specific group.'' @ [newline] @
     ''A %grouppost command followed by the group id/name, the message subject, and the message content or main body to post a message to a message board owned by a specific group.'' @ [newline] @
     ''A %groupusers command followed by the group id/name to retrieve a list of users in the given group.'' @ [newline] @
     ''A %groupleave command followed by the group id/name to leave a specific group.'' @ [newline] @
     ''A %groupmessage command followed by the group id/name and message ID to retrieve the content of the message posted earlier on a message board owned by a specific group.''"

text \<open>
  How one pass through the body of \<^verbatim>\<open>while True\<close> in \<^verbatim>\<open>open_connection\<close> ends:
  the loop goes on to the next \<^verbatim>\<open>recv\<close>, a \<^verbatim>\<open>break\<close> leaves the loop (the thread
  function then ends, with the socket left open and the registry entry in place),
  \<^verbatim>\<open>return 0\<close> after \<^verbatim>\<open>exit\<close>, or an exception nobody catches ends the thread.
\<close>

datatype outcome = Continue | Break | Return0 | Raise py_error

definition after_handler :: "result \<Rightarrow> server \<times> sends \<times> outcome" where
  "after_handler r =
     (case r of
        (s, out, None) \<Rightarrow> (s, out, Continue)
      | (s, out, Some e) \<Rightarrow> (s, out, Raise e))"

text \<open>
  One request. \<open>client_id\<close>, \<open>client_name\<close> and \<open>sk\<close> are the locals of the thread,
  \<open>data\<close> is what \<^verbatim>\<open>recv\<close> returned, decoded. A handler called with more positional
  arguments than it has parameters raises TypeError before it runs.
\<close>

definition dispatch :: "server \<Rightarrow> nat \<Rightarrow> string \<Rightarrow> sock \<Rightarrow> pydate \<Rightarrow> string \<Rightarrow> server \<times> sends \<times> outcome" where
  "dispatch s client_id client_name sk today data =
     (if data = [] then (s, [], Break)
      else case split_sp data of
        [] \<Rightarrow> (s, [], Raise IndexError)
      | command # params \<Rightarrow>
          if command = ''help'' then (s, [(sk, help_msg)], Continue)
          else if command = ''join'' then after_handler (handle_join s client_id ''default'')
          else if command = ''post'' then
            (case params of
               subj # w # ws \<Rightarrow> after_handler (handle_post s client_id ''default'' subj (w # ws) today)
             | _ \<Rightarrow> (s, [(sk, ''Error: Missing subject or message.'')], Break))
          else if command = ''users'' then
            (case members s ''default'' of
               None \<Rightarrow> (s, [], Raise KeyError)
             | Some us \<Rightarrow> (s, [(sk, ''Users in '' @ quoted ''default'' @ '': '' @ py_join '', '' us)], Continue))
          else if command = ''leave'' then after_handler (handle_leave s client_id ''default'')
          else if command = ''message'' then
            (case params of
               [] \<Rightarrow> (s, [(sk, ''Error: Missing message ID.'')], Break)
             | [message_id] \<Rightarrow> after_handler (handle_message s client_id ''default'' message_id)
             | _ \<Rightarrow> (s, [], Raise TypeError))
          else if command = ''exit'' then
            (case map_of (connected_clients s) client_id of
               None \<Rightarrow> (s, [(sk, ''You have been disconnected from the server.'')], Raise KeyError)
             | Some c \<Rightarrow>
                 (s\<lparr>connected_clients := AList.delete client_id (connected_clients s)\<rparr>,
                  [(sk, ''You have been disconnected from the server.'')], Return0))
          else if command = ''groups'' then
            (let response = ''Available groups: '' @ concat (map (\<lambda>g. g @ '', '') (map fst (groups s)))
             in (s, [(sk, take (length response - 2) response)], Continue))
          else if command = ''groupjoin'' then
            (case params of
               [g] \<Rightarrow> after_handler (handle_join s client_id g)
             | _ \<Rightarrow> (s, [(sk, ''Invalid %groupsjoin command. Please supply a group name to join.'')], Break))
          else if command = ''grouppost'' then
            (case params of
               g # subj # w # ws \<Rightarrow> after_handler (handle_post s client_id g subj (w # ws) today)
             | _ \<Rightarrow> (s, [(sk, ''Error: Missing group, subject, or message.'')], Break))
          else if command = ''groupusers'' then
            (case params of
               [] \<Rightarrow> (s, [(sk, ''Error: Invalid group name'')], Break)
             | g # _ \<Rightarrow>
                 (case members s g of
                    None \<Rightarrow> (s, [(sk, ''Error: Invalid group name'')], Break)
                  | Some us \<Rightarrow>
                      if client_name \<notin> set us then
                        (s, [(sk, ''Error: Client not member of group '' @ quoted g @ ''.'')], Break)
                      else (s, [(sk, ''Users in '' @ quoted g @ '': '' @ py_join '', '' us)], Continue)))
          else if command = ''groupleave'' then
            (case params of
               [] \<Rightarrow> (s, [(sk, ''Error: Invalid group name.'')], Break)
             | g # _ \<Rightarrow>
                 if map_of (groups s) g = None then (s, [(sk, ''Error: Invalid group name.'')], Break)
                 else after_handler (handle_leave s client_id g))
          else if command = ''groupmessage'' then
            (case params of
               [g, message_id] \<Rightarrow> after_handler (handle_message s client_id g message_id)
             | _ # _ # _ # _ \<Rightarrow> (s, [], Raise TypeError)
             | _ \<Rightarrow> (s, [(sk, ''Error: Missing group ID or message ID.'')], Break))
          else (s, [(sk, ''Invalid command.'')], Continue))"

text \<open>
  The loop itself, on the successive results of \<^verbatim>\<open>recv\<close> (each with the date of that
  moment): it stops at the first pass that does not end in \<^const>\<open>Continue\<close>, and what was
  not read is returned with the outcome.
\<close>

fun serve :: "server \<Rightarrow> nat \<Rightarrow> string \<Rightarrow> sock \<Rightarrow> (pydate \<times> string) list
               \<Rightarrow> server \<times> sends \<times> outcome \<times> (pydate \<times> string) list" where
  "serve s client_id client_name sk [] = (s, [], Continue, [])"
| "serve s client_id client_name sk ((today, data) # rest) =
     (case dispatch s client_id client_name sk today data of
        (s', out, Continue) \<Rightarrow>
          (case serve s' client_id client_name sk rest of
             (s'', out', r) \<Rightarrow> (s'', out @ out', r))
      | (s', out, oc) \<Rightarrow> (s', out, oc, rest))"

section \<open>Persistence\<close>

text \<open>
  \<^verbatim>\<open>server_shutdown\<close> writes \<^verbatim>\<open>self.groups\<close> and \<^verbatim>\<open>self.boards\<close> with \<^verbatim>\<open>json.dump\<close>, and
  \<^verbatim>\<open>server_startup\<close> reads them with \<^verbatim>\<open>json.load\<close>. The JSON text itself is the
  library's business; a file is modelled by the JSON value it holds, typed as the server
  writes it: an object is its sequence of key and value pairs, an array a list.
  \<^verbatim>\<open>json.dump\<close> writes an integer key as its decimal string and hands a date to
  \<^verbatim>\<open>default_serializer\<close>, which returns \<^verbatim>\<open>isoformat()\<close>; a date that is already a string
  is written as it is.
\<close>

record stored_message =
  j_sender :: string
  j_date :: string
  j_subject :: string
  j_message :: string
  j_users_at_time_of_posting :: "string list"

type_synonym groups_file = "(string \<times> string list) list"
type_synonym boards_file = "(string \<times> (string \<times> stored_message) list) list"

definition default_serializer :: "pydate \<Rightarrow> string" where
  "default_serializer d = isoformat d"

definition dump_groups :: "server \<Rightarrow> groups_file" where
  "dump_groups s = map (\<lambda>(g, a). (g, heap s a)) (groups s)"

definition dump_message :: "server \<Rightarrow> board_message \<Rightarrow> stored_message" where
  "dump_message s m =
     \<lparr>j_sender = sender m,
      j_date = (case date m of DateStr t \<Rightarrow> t | DateObj y mo d \<Rightarrow> default_serializer (date m)),
      j_subject = subject m, j_message = message m,
      j_users_at_time_of_posting = heap s (users_at_time_of_posting m)\<rparr>"

definition dump_boards :: "server \<Rightarrow> boards_file" where
  "dump_boards s =
     map (\<lambda>(g, b). (g, map (\<lambda>(k, m). (py_str k, dump_message s m)) b)) (boards s)"

definition server_shutdown :: "server \<Rightarrow> groups_file \<times> boards_file" where
  "server_shutdown s = (dump_groups s, dump_boards s)"

text \<open>
  Building a dictionary from pairs, as \<^verbatim>\<open>json.load\<close> and a dict comprehension do: a key
  that comes again keeps its place and takes the later value.
\<close>

definition dict_of :: "('k \<times> 'v) list \<Rightarrow> ('k \<times> 'v) list" where
  "dict_of kvs = fold (\<lambda>(k, v). AList.update k v) kvs []"

text \<open>A new list object.\<close>

definition new_list :: "string list \<Rightarrow> server \<Rightarrow> addr \<times> server" where
  "new_list xs s =
     (next_addr s, s\<lparr>heap := (heap s)(next_addr s := xs), next_addr := next_addr s + 1\<rparr>)"

fun load_lists :: "groups_file \<Rightarrow> server \<Rightarrow> (string \<times> addr) list \<times> server" where
  "load_lists [] s = ([], s)"
| "load_lists ((g, us) # rest) s =
     (case new_list us s of
        (a, s') \<Rightarrow> (case load_lists rest s' of (gs, s'') \<Rightarrow> ((g, a) # gs, s'')))"

fun load_messages :: "(string \<times> stored_message) list \<Rightarrow> server
                       \<Rightarrow> (string \<times> board_message) list \<times> server" where
  "load_messages [] s = ([], s)"
| "load_messages ((k, j) # rest) s =
     (case new_list (j_users_at_time_of_posting j) s of
        (a, s') \<Rightarrow>
          (case load_messages rest s' of
             (ms, s'') \<Rightarrow>
               ((k, \<lparr>sender = j_sender j, date = DateStr (j_date j), subject = j_subject j,
                     message = j_message j, users_at_time_of_posting = a\<rparr>) # ms, s'')))"

fun load_boards :: "boards_file \<Rightarrow> server
                     \<Rightarrow> (string \<times> (string \<times> board_message) list) list \<times> server" where
  "load_boards [] s = ([], s)"
| "load_boards ((g, b) # rest) s =
     (case load_messages b s of
        (ms, s') \<Rightarrow> (case load_boards rest s' of (bs, s'') \<Rightarrow> ((g, dict_of ms) # bs, s'')))"

text \<open>
  Line 65, \<^verbatim>\<open>{key: {int(k): v for k, v in value.items()} for key, value in ...}\<close>:
  \<^verbatim>\<open>int\<close> raises ValueError on a key it cannot read.
\<close>

fun int_keys :: "(string \<times> 'v) list \<Rightarrow> py_error + (int \<times> 'v) list" where
  "int_keys [] = Inr []"
| "int_keys ((k, v) # rest) =
     (case py_int k of
        None \<Rightarrow> Inl ValueError
      | Some i \<Rightarrow> (case int_keys rest of Inl e \<Rightarrow> Inl e | Inr r \<Rightarrow> Inr ((i, v) # r)))"

fun convert_boards :: "(string \<times> (string \<times> board_message) list) list
                        \<Rightarrow> py_error + (string \<times> board) list" where
  "convert_boards [] = Inr []"
| "convert_boards ((g, b) # rest) =
     (case int_keys b of
        Inl e \<Rightarrow> Inl e
      | Inr b' \<Rightarrow>
          (case convert_boards rest of
             Inl e \<Rightarrow> Inl e
           | Inr r \<Rightarrow> Inr ((g, dict_of b') # r)))"

text \<open>
  The loading part of \<^verbatim>\<open>server_startup\<close>, on the server \<^verbatim>\<open>main\<close> has just constructed;
  each file is given when it exists. Without \<^verbatim>\<open>boards.json\<close> line 65 rebuilds the empty
  default board of \<^verbatim>\<open>__init__\<close>.
\<close>

definition server_startup :: "groups_file option \<Rightarrow> boards_file option \<Rightarrow> py_error + server" where
  "server_startup gf bf =
     (let s0 = server_init;
          s1 = (case gf of
                  None \<Rightarrow> s0
                | Some f \<Rightarrow> (case load_lists f s0 of (gs, s') \<Rightarrow> s'\<lparr>groups := dict_of gs\<rparr>))
      in case bf of
           None \<Rightarrow> Inr s1
         | Some f \<Rightarrow>
             (case load_boards f s1 of
                (raw, s2) \<Rightarrow>
                  (case convert_boards (dict_of raw) of
                     Inl e \<Rightarrow> Inl e
                   | Inr bs \<Rightarrow> Inr (s2\<lparr>boards := bs\<rparr>))))"

text \<open>
  The Group Directory and the Board Store by value: every list read through the store,
  every date as the text a reader is shown.
\<close>

definition group_directory :: "server \<Rightarrow> (string \<times> string list) list" where
  "group_directory s = map (\<lambda>(g, a). (g, heap s a)) (groups s)"

definition message_view :: "server \<Rightarrow> board_message \<Rightarrow> string \<times> string \<times> string \<times> string \<times> string list" where
  "message_view s m =
     (sender m, isoformat (date m), subject m, message m, heap s (users_at_time_of_posting m))"

definition board_store :: "server \<Rightarrow> (string \<times> (int \<times> string \<times> string \<times> string \<times> string \<times> string list) list) list" where
  "board_store s = map (\<lambda>(g, b). (g, map (\<lambda>(k, m). (k, message_view s m)) b)) (boards s)"

text \<open>
  Shutting down and starting again: what \<^const>\<open>server_shutdown\<close> wrote is what
  \<^const>\<open>server_startup\<close> reads.
\<close>

definition restart :: "server \<Rightarrow> py_error + server" where
  "restart s = (case server_shutdown s of (gf, bf) \<Rightarrow> server_startup (Some gf) (Some bf))"

text \<open>A stored message by value.\<close>

definition stored_view :: "stored_message \<Rightarrow> string \<times> string \<times> string \<times> string \<times> string list" where
  "stored_view j = (j_sender j, j_date j, j_subject j, j_message j, j_users_at_time_of_posting j)"

text \<open>
  The store of \<open>s'\<close> extends the one of \<open>s\<close>: it has handed out at least the same
  addresses, and holds the same lists at those of \<open>s\<close>.
\<close>

definition grows :: "server \<Rightarrow> server \<Rightarrow> bool" where
  "grows s s' \<longleftrightarrow> next_addr s \<le> next_addr s' \<and> (\<forall>a < next_addr s. heap s' a = heap s a)"

text \<open>A decimal digit, and the number a string of digits denotes after \<open>acc\<close>.\<close>

definition is_digit :: "char \<Rightarrow> bool" where
  "is_digit c \<longleftrightarrow> (\<exists>d < 10. c = digit_char d)"

definition digits_value :: "nat \<Rightarrow> string \<Rightarrow> nat" where
  "digits_value acc ds = foldl (\<lambda>a c. 10 * a + the (digit_val c)) acc ds"

section \<open>Runs and invariants\<close>

text \<open>
  The server as a whole: a connection arrives and is shaken hands with, or some session
  thread reads a request and dispatches it. Each event is taken as one step.
\<close>

datatype event = Connect sock string | Request nat string sock pydate string

definition step :: "server \<Rightarrow> event \<Rightarrow> server" where
  "step s e =
     (case e of
        Connect sk client_info \<Rightarrow> fst (handshake s sk client_info)
      | Request client_id client_name sk today data \<Rightarrow>
          fst (dispatch s client_id client_name sk today data))"

definition run :: "server \<Rightarrow> event list \<Rightarrow> server" where
  "run s es = foldl step s es"

text \<open>Posting one message after another to the same group.\<close>

fun post_all :: "server \<Rightarrow> string \<Rightarrow> (nat \<times> string \<times> string list \<times> pydate) list \<Rightarrow> server" where
  "post_all s g [] = s"
| "post_all s g ((client_id, subj, words, today) # rest) =
     post_all (fst (handle_post s client_id g subj words today)) g rest"

text \<open>A dictionary has each key once.\<close>

definition dict_ok :: "('k \<times> 'v) list \<Rightarrow> bool" where
  "dict_ok d \<longleftrightarrow> distinct (map fst d)"

text \<open>The ids of a board are \<open>0, 1, \<dots>\<close> in the order of its entries.\<close>

definition gapless :: "board \<Rightarrow> bool" where
  "gapless b \<longleftrightarrow> map fst b = map int [0..<length b]"

text \<open>
  The store is well formed: every address in use has been handed out, and no message
  shares its list of users with a group.
\<close>

definition store_ok :: "server \<Rightarrow> bool" where
  "store_ok s \<longleftrightarrow>
     (\<forall>(g, a) \<in> set (groups s). a < next_addr s) \<and>
     (\<forall>(g, b) \<in> set (boards s). \<forall>(k, m) \<in> set b.
         users_at_time_of_posting m < next_addr s \<and>
         users_at_time_of_posting m \<notin> snd ` set (groups s))"

text \<open>
  The invariant of the running server: the store is well formed, every board is gapless,
  and a board that holds messages belongs to a group of the directory.
\<close>

definition server_inv :: "server \<Rightarrow> bool" where
  "server_inv s \<longleftrightarrow>
     store_ok s \<and>
     (\<forall>(g, b) \<in> set (boards s). gapless b \<and> (b \<noteq> [] \<longrightarrow> g \<in> fst ` set (groups s)))"

text \<open>Message \<open>m\<close> is the entry with id \<open>k\<close> on the board of group \<open>g\<close>.\<close>

definition stored :: "server \<Rightarrow> string \<Rightarrow> int \<Rightarrow> board_message \<Rightarrow> bool" where
  "stored s g k m \<longleftrightarrow> (case map_of (boards s) g of None \<Rightarrow> False | Some b \<Rightarrow> map_of b k = Some m)"

text \<open>
  Every message stored in \<open>s\<close> is stored in \<open>s'\<close> under the same id, and its list of
  users at the time of posting has the same value.
\<close>

definition keeps :: "server \<Rightarrow> server \<Rightarrow> bool" where
  "keeps s s' \<longleftrightarrow>
     (\<forall>g k m. stored s g k m \<longrightarrow>
        stored s' g k m \<and>
        heap s' (users_at_time_of_posting m) = heap s (users_at_time_of_posting m))"

text \<open>
  Every change a request or a connection makes to the state is one of five: the registry
  or the id counter is written; the list of an existing group is overwritten in place; a
  group is created with a new list; an empty board is installed for a group that is new
  or has none; a message with a new list of users is put on the board of an existing
  group under the id that is the size of the board.
\<close>

inductive change :: "server \<Rightarrow> server \<Rightarrow> bool" where
  registry: "change s (s\<lparr>client_ids := n, connected_clients := r\<rparr>)"
| write_list: "map_of (groups s) g = Some a \<Longrightarrow> change s (s\<lparr>heap := (heap s)(a := xs)\<rparr>)"
| new_group:
    "map_of (groups s) g = None \<Longrightarrow>
     change s (s\<lparr>groups := AList.update g (next_addr s) (groups s),
                 heap := (heap s)(next_addr s := xs),
                 next_addr := next_addr s + 1\<rparr>)"
| new_board:
    "map_of (groups s) g = None \<or> map_of (boards s) g = None \<Longrightarrow>
     change s (s\<lparr>boards := AList.update g [] (boards s)\<rparr>)"
| new_message:
    "map_of (groups s) g = Some a \<Longrightarrow> map_of (boards s) g = Some b \<Longrightarrow>
     users_at_time_of_posting e = next_addr s \<Longrightarrow>
     change s (s\<lparr>boards := AList.update g (AList.update (int (length b)) e b) (boards s),
                 heap := (heap s)(next_addr s := xs),
                 next_addr := next_addr s + 1\<rparr>)"


text \<open>The session \<open>client_id\<close> is registered and its user is in the list of group \<open>g\<close>.\<close>

definition member_session :: "server \<Rightarrow> string \<Rightarrow> nat \<Rightarrow> bool" where
  "member_session s g client_id =
     (case map_of (connected_clients s) client_id of
        None \<Rightarrow> False
      | Some c \<Rightarrow> (case members s g of None \<Rightarrow> False | Some us \<Rightarrow> name c \<in> set us))"

text \<open>The board of a group; no board reads as the empty one.\<close>

definition board_of :: "server \<Rightarrow> string \<Rightarrow> board" where
  "board_of s g = (case map_of (boards s) g of None \<Rightarrow> [] | Some b \<Rightarrow> b)"

text \<open>The entry \<^const>\<open>handle_post\<close> stores.\<close>

definition new_entry :: "server \<Rightarrow> client \<Rightarrow> string \<Rightarrow> string list \<Rightarrow> pydate \<Rightarrow> board_message" where
  "new_entry s c subj words today =
     \<lparr>sender = name c, date = today, subject = subj, message = py_join '' '' words,
      users_at_time_of_posting = next_addr s\<rparr>"

section \<open>An example run\<close>

text \<open>
  Alice connects with the group \<open>book-club\<close> and posts to it; Bob connects and then joins
  \<open>book-club\<close>, whose board holds one message by then.
\<close>

definition book_club_events :: "event list" where
  "book_club_events =
     [Connect 7 ''alice book-club'',
      Request 0 ''alice'' 7 (DateObj 2024 3 7) ''grouppost book-club Welcome Hi all'',
      Connect 8 ''bob default'',
      Request 1 ''bob'' 8 (DateObj 2024 3 8) ''groupjoin book-club'']"

definition book_club_state :: server where
  "book_club_state = run server_init book_club_events"

definition bob :: client where
  "bob = \<lparr>name = ''bob'', group = ''default'', client_socket = 8\<rparr>"

definition alice :: client where
  "alice = \<lparr>name = ''alice'', group = ''book-club'', client_socket = 7\<rparr>"

definition first_post :: board_message where
  "first_post = \<lparr>sender = ''alice'', date = DateObj 2024 3 7, subject = ''Welcome'',
              message = ''Hi all'', users_at_time_of_posting = 2\<rparr>"

text \<open>Alice alone, connected with \<open>book-club\<close>; two posts by Alice; what happens later.\<close>

definition alice_alone :: server where
  "alice_alone = run server_init [Connect 7 ''alice book-club'']"

definition two_posts :: "(nat \<times> string \<times> string list \<times> pydate) list" where
  "two_posts =
     [(0, ''Welcome'', [''Hi'', ''all''], DateObj 2024 3 7),
      (0, ''Again'', [''Hello''], DateObj 2024 3 8)]"

definition later_events :: "event list" where
  "later_events =
     [Connect 8 ''bob default'',
      Request 1 ''bob'' 8 (DateObj 2024 3 8) ''groupjoin book-club'',
      Request 0 ''alice'' 7 (DateObj 2024 3 9) ''groupleave book-club'']"


text \<open>A state with six groups.\<close>

definition busy_state :: server where
  "busy_state =
     server_init
       \<lparr>client_ids := 5,
        groups := [(''default'', 0), (''a'', 1), (''b'', 2), (''c'', 3), (''d'', 4), (''e'', 5)],
        boards := [(''default'', []), (''a'', []), (''b'', []), (''c'', []), (''d'', []), (''e'', [])],
        next_addr := 6\<rparr>"

text \<open>The notice \<^const>\<open>handle_post\<close> sends.\<close>

definition post_notice :: "string \<Rightarrow> string \<Rightarrow> int \<Rightarrow> string" where
  "post_notice g sender_name message_id =
     ''New message posted in '' @ g @ '' by '' @ sender_name @ '' with ID#'' @ py_str message_id @ ''.''"

section \<open>Facts about the example run\<close>

lemma book_club_bob: "map_of (connected_clients book_club_state) 1 = Some bob"
  by code_simp

lemma book_club_alice: "map_of (connected_clients book_club_state) 0 = Some alice"
  by code_simp

lemma book_club_group: "map_of (groups book_club_state) ''book-club'' = Some 1"
  by code_simp

lemma book_club_members: "heap book_club_state 1 = [''alice'', ''bob'']"
  by code_simp

lemma book_club_board: "map_of (boards book_club_state) ''book-club'' = Some [(0, first_post)]"
  by code_simp


section \<open>Association lists and gapless boards\<close>

lemma in_set_updateD:
  "(k', v') \<in> set (AList.update k v al) \<Longrightarrow> (k', v') = (k, v) \<or> (k', v') \<in> set al"
  by (induction al) (auto split: if_splits)

lemma keys_update: "fst ` set (AList.update k v al) = insert k (fst ` set al)"
  by (simp add: AList.dom_update)

lemma gapless_Nil: "gapless []"
  by (simp add: gapless_def)

lemma gapless_keys: "gapless b \<Longrightarrow> fst ` set b = int ` {0..<length b}"
proof -
  assume "gapless b"
  then have "set (map fst b) = set (map int [0..<length b])"
    by (simp add: gapless_def)
  then show ?thesis by simp
qed

lemma gapless_fresh: "gapless b \<Longrightarrow> map_of b (int (length b)) = None"
proof -
  assume g: "gapless b"
  have "int (length b) \<notin> int ` {0..<length b}" by auto
  with gapless_keys [OF g] show ?thesis
    by (simp add: map_of_eq_None_iff)
qed

lemma update_fresh: "map_of al k = None \<Longrightarrow> AList.update k v al = al @ [(k, v)]"
  by (induction al) (auto split: if_splits)

lemma gapless_post:
  "gapless b \<Longrightarrow> AList.update (int (length b)) e b = b @ [(int (length b), e)]"
  by (simp add: update_fresh gapless_fresh)

lemma gapless_snoc: "gapless b \<Longrightarrow> gapless (b @ [(int (length b), e)])"
  by (simp add: gapless_def)

lemma keeps_refl: "keeps s s"
  by (simp add: keeps_def)

lemma keeps_trans:
  assumes "keeps s s'" "keeps s' s''"
  shows "keeps s s''"
  unfolding keeps_def
proof (intro allI impI)
  fix g k m
  assume st: "stored s g k m"
  with assms(1) have 1: "stored s' g k m"
    and 2: "heap s' (users_at_time_of_posting m) = heap s (users_at_time_of_posting m)"
    by (auto simp: keeps_def)
  from assms(2) 1 have 3: "stored s'' g k m"
    and 4: "heap s'' (users_at_time_of_posting m) = heap s' (users_at_time_of_posting m)"
    by (auto simp: keeps_def)
  from 2 3 4 show "stored s'' g k m \<and>
      heap s'' (users_at_time_of_posting m) = heap s (users_at_time_of_posting m)"
    by simp
qed

lemma stored_in_set:
  "stored s g k m \<Longrightarrow> \<exists>b. (g, b) \<in> set (boards s) \<and> (k, m) \<in> set b"
  by (auto simp: stored_def split: option.splits dest: map_of_SomeD)

lemma stored_addr:
  assumes "store_ok s" "stored s g k m"
  shows "users_at_time_of_posting m < next_addr s \<and>
         users_at_time_of_posting m \<notin> snd ` set (groups s)"
proof -
  from stored_in_set [OF assms(2)] obtain b where "(g, b) \<in> set (boards s)" "(k, m) \<in> set b"
    by blast
  with assms(1) show ?thesis
    unfolding store_ok_def by fast
qed


section \<open>The invariant along a run\<close>

lemma store_okD1: "store_ok s \<Longrightarrow> (g, a) \<in> set (groups s) \<Longrightarrow> a < next_addr s"
  unfolding store_ok_def by fast

lemma store_okD2:
  "store_ok s \<Longrightarrow> (g, b) \<in> set (boards s) \<Longrightarrow> (k, m) \<in> set b \<Longrightarrow>
   users_at_time_of_posting m < next_addr s \<and> (g', users_at_time_of_posting m) \<notin> set (groups s)"
  unfolding store_ok_def by force

lemma store_okI:
  assumes "\<And>g a. (g, a) \<in> set (groups s) \<Longrightarrow> a < next_addr s"
    and "\<And>g b k m. (g, b) \<in> set (boards s) \<Longrightarrow> (k, m) \<in> set b \<Longrightarrow>
           users_at_time_of_posting m < next_addr s"
    and "\<And>g b k m g'. (g, b) \<in> set (boards s) \<Longrightarrow> (k, m) \<in> set b \<Longrightarrow>
           (g', users_at_time_of_posting m) \<notin> set (groups s)"
  shows "store_ok s"
  unfolding store_ok_def using assms by (auto simp: image_iff) 

lemma server_invD1: "server_inv s \<Longrightarrow> store_ok s"
  by (simp add: server_inv_def)

lemma server_invD2: "server_inv s \<Longrightarrow> (g, b) \<in> set (boards s) \<Longrightarrow> gapless b"
  unfolding server_inv_def by fast

lemma server_invD3:
  "server_inv s \<Longrightarrow> (g, b) \<in> set (boards s) \<Longrightarrow> b \<noteq> [] \<Longrightarrow> g \<in> fst ` set (groups s)"
  unfolding server_inv_def by fast

lemma server_invI:
  assumes "store_ok s"
    and "\<And>g b. (g, b) \<in> set (boards s) \<Longrightarrow> gapless b"
    and "\<And>g b. (g, b) \<in> set (boards s) \<Longrightarrow> b \<noteq> [] \<Longrightarrow> g \<in> fst ` set (groups s)"
  shows "server_inv s"
  unfolding server_inv_def using assms by auto


lemma map_of_in_keys: "map_of al k = Some v \<Longrightarrow> k \<in> fst ` set al"
  by (metis domI dom_map_of_conv_image_fst)

lemma change_inv:
  assumes "change s s'" "server_inv s"
  shows "server_inv s'"
  using assms
proof (induction rule: change.induct)
  case (registry s n r)
  then show ?case
    by (simp add: server_inv_def store_ok_def)
next
  case (write_list s g a xs)
  then show ?case
    by (simp add: server_inv_def store_ok_def)
next
  case (new_group s g xs)
  let ?s' = "s\<lparr>groups := AList.update g (next_addr s) (groups s),
                heap := (heap s)(next_addr s := xs), next_addr := next_addr s + 1\<rparr>"
  have ok: "store_ok s"
    using new_group.prems by (rule server_invD1)
  have "store_ok ?s'"
  proof (rule store_okI)
    fix g' a
    assume "(g', a) \<in> set (groups ?s')"
    then have "(g', a) = (g, next_addr s) \<or> (g', a) \<in> set (groups s)"
      by (auto dest: in_set_updateD)
    then show "a < next_addr ?s'"
      using store_okD1 [OF ok] by (auto simp: less_Suc_eq)
  next
    fix g' b k m
    assume "(g', b) \<in> set (boards ?s')" "(k, m) \<in> set b"
    then show "users_at_time_of_posting m < next_addr ?s'"
      using store_okD2 [OF ok, of g' b k m] by (simp add: less_Suc_eq)
  next
    fix g' b k m g''
    assume *: "(g', b) \<in> set (boards ?s')" "(k, m) \<in> set b"
    then have lt: "users_at_time_of_posting m < next_addr s"
      and old: "(g'', users_at_time_of_posting m) \<notin> set (groups s)"
      using store_okD2 [OF ok, of g' b k m g''] by simp_all
    show "(g'', users_at_time_of_posting m) \<notin> set (groups ?s')"
    proof
      assume "(g'', users_at_time_of_posting m) \<in> set (groups ?s')"
      then have "(g'', users_at_time_of_posting m) = (g, next_addr s) \<or>
                 (g'', users_at_time_of_posting m) \<in> set (groups s)"
        by (auto dest: in_set_updateD)
      with lt old show False by auto
    qed
  qed
  moreover have "\<And>g' b. (g', b) \<in> set (boards ?s') \<Longrightarrow> gapless b"
    using server_invD2 [OF new_group.prems] by simp
  moreover have "\<And>g' b. (g', b) \<in> set (boards ?s') \<Longrightarrow> b \<noteq> [] \<Longrightarrow> g' \<in> fst ` set (groups ?s')"
    using server_invD3 [OF new_group.prems] by (simp add: keys_update)
  ultimately show ?case
    by (rule server_invI)
next
  case (new_board s g)
  let ?s' = "s\<lparr>boards := AList.update g [] (boards s)\<rparr>"
  have ok: "store_ok s"
    using new_board.prems by (rule server_invD1)
  have sub: "\<And>g' b. (g', b) \<in> set (boards ?s') \<Longrightarrow> b = [] \<or> (g', b) \<in> set (boards s)"
    by (auto dest: in_set_updateD)
  have "store_ok ?s'"
  proof (rule store_okI)
    fix g' a
    assume "(g', a) \<in> set (groups ?s')"
    then show "a < next_addr ?s'"
      using store_okD1 [OF ok] by simp
  next
    fix g' b k m
    assume "(g', b) \<in> set (boards ?s')" "(k, m) \<in> set b"
    with sub [of g' b] have "(g', b) \<in> set (boards s)" by auto
    then show "users_at_time_of_posting m < next_addr ?s'"
      using store_okD2 [OF ok, of g' b k m] \<open>(k, m) \<in> set b\<close> by simp
  next
    fix g' b k m g''
    assume "(g', b) \<in> set (boards ?s')" "(k, m) \<in> set b"
    with sub [of g' b] have "(g', b) \<in> set (boards s)" by auto
    then show "(g'', users_at_time_of_posting m) \<notin> set (groups ?s')"
      using store_okD2 [OF ok, of g' b k m g''] \<open>(k, m) \<in> set b\<close> by simp
  qed
  moreover have "\<And>g' b. (g', b) \<in> set (boards ?s') \<Longrightarrow> gapless b"
    using sub server_invD2 [OF new_board.prems] gapless_Nil by blast
  moreover have "\<And>g' b. (g', b) \<in> set (boards ?s') \<Longrightarrow> b \<noteq> [] \<Longrightarrow> g' \<in> fst ` set (groups ?s')"
  proof -
    fix g' b
    assume "(g', b) \<in> set (boards ?s')" "b \<noteq> []"
    with sub [of g' b] have "(g', b) \<in> set (boards s)" by auto
    with \<open>b \<noteq> []\<close> show "g' \<in> fst ` set (groups ?s')"
      using server_invD3 [OF new_board.prems] by simp
  qed
  ultimately show ?case
    by (rule server_invI)
next
  case (new_message s g a b e xs)
  let ?b' = "AList.update (int (length b)) e b"
  let ?s' = "s\<lparr>boards := AList.update g ?b' (boards s),
                heap := (heap s)(next_addr s := xs), next_addr := next_addr s + 1\<rparr>"
  have ok: "store_ok s"
    using new_message.prems by (rule server_invD1)
  have inb: "(g, b) \<in> set (boards s)"
    using new_message.hyps(2) by (rule map_of_SomeD)
  have gb: "gapless b"
    using server_invD2 [OF new_message.prems inb] .
  have b': "?b' = b @ [(int (length b), e)]"
    using gb by (rule gapless_post)
  have sub: "\<And>g' c. (g', c) \<in> set (boards ?s') \<Longrightarrow> (g', c) = (g, ?b') \<or> (g', c) \<in> set (boards s)"
    by (auto dest: in_set_updateD)
  have entries: "\<And>g' c k m. (g', c) \<in> set (boards ?s') \<Longrightarrow> (k, m) \<in> set c \<Longrightarrow>
      m = e \<or> (\<exists>c'. (g', c') \<in> set (boards s) \<and> (k, m) \<in> set c')"
  proof -
    fix g' c k m
    assume "(g', c) \<in> set (boards ?s')" "(k, m) \<in> set c"
    with sub [of g' c] b' inb show "m = e \<or> (\<exists>c'. (g', c') \<in> set (boards s) \<and> (k, m) \<in> set c')"
      by auto
  qed
  have "store_ok ?s'"
  proof (rule store_okI)
    fix g' a'
    assume "(g', a') \<in> set (groups ?s')"
    then show "a' < next_addr ?s'"
      using store_okD1 [OF ok, of g' a'] by simp
  next
    fix g' c k m
    assume "(g', c) \<in> set (boards ?s')" "(k, m) \<in> set c"
    from entries [OF this] show "users_at_time_of_posting m < next_addr ?s'"
      using store_okD2 [OF ok] new_message.hyps(3) by (auto simp: less_Suc_eq)
  next
    fix g' c k m g''
    assume "(g', c) \<in> set (boards ?s')" "(k, m) \<in> set c"
    from entries [OF this] show "(g'', users_at_time_of_posting m) \<notin> set (groups ?s')"
    proof
      assume "m = e"
      then show ?thesis
        using store_okD1 [OF ok, of g'' "next_addr s"] new_message.hyps(3) by auto
    next
      assume "\<exists>c'. (g', c') \<in> set (boards s) \<and> (k, m) \<in> set c'"
      then show ?thesis
        using store_okD2 [OF ok] by auto
    qed
  qed
  moreover have "\<And>g' c. (g', c) \<in> set (boards ?s') \<Longrightarrow> gapless c"
  proof -
    fix g' c
    assume "(g', c) \<in> set (boards ?s')"
    with sub [of g' c] show "gapless c"
      using server_invD2 [OF new_message.prems] gapless_snoc [OF gb, of e] b' by auto
  qed
  moreover have "\<And>g' c. (g', c) \<in> set (boards ?s') \<Longrightarrow> c \<noteq> [] \<Longrightarrow> g' \<in> fst ` set (groups ?s')"
  proof -
    fix g' c
    assume "(g', c) \<in> set (boards ?s')" "c \<noteq> []"
    with sub [of g' c] show "g' \<in> fst ` set (groups ?s')"
      using server_invD3 [OF new_message.prems] map_of_in_keys [OF new_message.hyps(1)] by auto
  qed
  ultimately show ?case
    by (rule server_invI)
qed


lemma stored_boards_cong:
  "boards s' = boards s \<Longrightarrow> stored s' g k m = stored s g k m"
  by (simp add: stored_def)

lemma keepsI:
  assumes "store_ok s"
    and "\<And>g k m. stored s g k m \<Longrightarrow> stored s' g k m"
    and "\<And>a. a < next_addr s \<Longrightarrow> a \<notin> snd ` set (groups s) \<Longrightarrow> heap s' a = heap s a"
  shows "keeps s s'"
  unfolding keeps_def
proof (intro allI impI conjI)
  fix g k m
  assume st: "stored s g k m"
  then show "stored s' g k m" by (rule assms(2))
  from stored_addr [OF assms(1) st]
  show "heap s' (users_at_time_of_posting m) = heap s (users_at_time_of_posting m)"
    by (intro assms(3)) simp_all
qed

lemma change_keeps:
  assumes "change s s'" "server_inv s"
  shows "keeps s s'"
  using assms
proof (induction rule: change.induct)
  case (registry s n r)
  then show ?case
    by (simp add: keeps_def stored_def)
next
  case (write_list s g a xs)
  have "a \<in> snd ` set (groups s)"
    using map_of_SomeD [OF write_list.hyps] by force
  then show ?case
    by (intro keepsI server_invD1 [OF write_list.prems]) (auto simp: stored_def)
next
  case (new_group s g xs)
  show ?case
    by (intro keepsI server_invD1 [OF new_group.prems]) (auto simp: stored_def)
next
  case (new_board s g)
  show ?case
  proof (intro keepsI server_invD1 [OF new_board.prems])
    fix g' k m
    assume st: "stored s g' k m"
    then obtain b where b: "map_of (boards s) g' = Some b" "map_of b k = Some m"
      by (auto simp: stored_def split: option.splits)
    have "g' \<noteq> g"
    proof
      assume "g' = g"
      have "b \<noteq> []" using b(2) by auto
      moreover have "(g', b) \<in> set (boards s)" using b(1) by (rule map_of_SomeD)
      ultimately have "g' \<in> fst ` set (groups s)"
        using server_invD3 [OF new_board.prems] by blast
      then have "map_of (groups s) g' \<noteq> None"
        by (simp add: map_of_eq_None_iff)
      with new_board.hyps b(1) \<open>g' = g\<close> show False by auto
    qed
    then show "stored (s\<lparr>boards := AList.update g [] (boards s)\<rparr>) g' k m"
      using b by (simp add: stored_def AList.update_conv')
  qed simp
next
  case (new_message s g a b e xs)
  have gb: "gapless b"
    using server_invD2 [OF new_message.prems map_of_SomeD [OF new_message.hyps(2)]] .
  show ?case
  proof (intro keepsI server_invD1 [OF new_message.prems])
    fix g' k m
    assume st: "stored s g' k m"
    then obtain c where c: "map_of (boards s) g' = Some c" "map_of c k = Some m"
      by (auto simp: stored_def split: option.splits)
    show "stored (s\<lparr>boards := AList.update g (AList.update (int (length b)) e b) (boards s),
                    heap := (heap s)(next_addr s := xs), next_addr := next_addr s + 1\<rparr>) g' k m"
    proof (cases "g' = g")
      case True
      with c new_message.hyps(2) have "map_of b k = Some m" by simp
      then have "map_of (b @ [(int (length b), e)]) k = Some m"
        by (simp add: map_add_def)
      then show ?thesis
        using True by (simp add: stored_def AList.update_conv' gapless_post [OF gb])
    next
      case False
      then show ?thesis
        using c by (simp add: stored_def AList.update_conv')
    qed
  qed simp
qed


lemma changes_inv:
  assumes "change\<^sup>*\<^sup>* s s'" "server_inv s"
  shows "server_inv s'"
  using assms by (induction rule: rtranclp_induct) (auto intro: change_inv)

lemma changes_keeps:
  assumes "change\<^sup>*\<^sup>* s s'" "server_inv s"
  shows "keeps s s'"
  using assms
proof (induction rule: rtranclp_induct)
  case base
  show ?case by (rule keeps_refl)
next
  case (step y z)
  have "keeps s y" using step by simp
  moreover have "keeps y z"
    using step.hyps(2) changes_inv [OF step.hyps(1) step.prems] by (rule change_keeps)
  ultimately show ?case by (rule keeps_trans)
qed

lemma change_new_group_Suc:
  "map_of (groups s) g = None \<Longrightarrow>
   change s (s\<lparr>groups := AList.update g (next_addr s) (groups s),
               heap := (heap s)(next_addr s := xs),
               next_addr := Suc (next_addr s)\<rparr>)"
  using change.new_group [of s g xs] by simp

lemma change_new_message_Suc:
  "map_of (groups s) g = Some a \<Longrightarrow> map_of (boards s) g = Some b \<Longrightarrow>
   users_at_time_of_posting e = next_addr s \<Longrightarrow>
   change s (s\<lparr>boards := AList.update g (AList.update (int (length b)) e b) (boards s),
               heap := (heap s)(next_addr s := xs),
               next_addr := Suc (next_addr s)\<rparr>)"
  using change.new_message [of s g a b e xs] by simp

lemma changes_ensure_board: "change\<^sup>*\<^sup>* s (ensure_board g s)"
  by (auto simp: ensure_board_def intro: change.new_board)

lemma changes_fold_ensure_board: "change\<^sup>*\<^sup>* s (fold ensure_board gs s)"
proof (induction gs arbitrary: s)
  case Nil
  show ?case by simp
next
  case (Cons g gs)
  have "change\<^sup>*\<^sup>* s (ensure_board g s)"
    by (rule changes_ensure_board)
  also have "change\<^sup>*\<^sup>* (ensure_board g s) (fold ensure_board gs (ensure_board g s))"
    by (rule Cons.IH)
  finally show ?case by simp
qed

lemma changes_add_clients_groups:
  "change\<^sup>*\<^sup>* s (add_clients_groups s client_id client_name client_group sk)"
proof -
  define s1 where "s1 = s\<lparr>client_ids := client_ids s + 1,
                 connected_clients :=
                   AList.update client_id
                     \<lparr>name = client_name, group = client_group, client_socket = sk\<rparr>
                     (connected_clients s)\<rparr>"
  define s2 where "s2 = (case map_of (groups s1) client_group of
                  None \<Rightarrow>
                    s1\<lparr>groups := AList.update client_group (next_addr s1) (groups s1),
                       heap := (heap s1)(next_addr s1 := [client_name]),
                       next_addr := next_addr s1 + 1\<rparr>
                | Some a \<Rightarrow>
                    if client_name \<notin> set (heap s1 a)
                    then s1\<lparr>heap := (heap s1)(a := heap s1 a @ [client_name])\<rparr>
                    else s1)"
  define s3 where "s3 = ensure_board ''default'' s2"
  have eq: "add_clients_groups s client_id client_name client_group sk =
              fold ensure_board (map fst (groups s3)) s3"
    unfolding add_clients_groups_def Let_def s1_def s2_def s3_def by (rule refl)
  have "change s s1"
    unfolding s1_def by (rule change.registry)
  then have "change\<^sup>*\<^sup>* s s1" by (rule r_into_rtranclp)
  also have "change\<^sup>*\<^sup>* s1 s2"
  proof (cases "map_of (groups s1) client_group")
    case None
    then have "change s1 s2"
      unfolding s2_def by (simp add: change_new_group_Suc)
    then show ?thesis by (rule r_into_rtranclp)
  next
    case (Some a)
    then show ?thesis
      unfolding s2_def by (auto intro: change.write_list)
  qed
  also have "change\<^sup>*\<^sup>* s2 s3"
    unfolding s3_def by (rule changes_ensure_board)
  also have "change\<^sup>*\<^sup>* s3 (fold ensure_board (map fst (groups s3)) s3)"
    by (rule changes_fold_ensure_board)
  finally show ?thesis
    by (simp add: eq)
qed

lemma changes_handshake: "change\<^sup>*\<^sup>* s (fst (handshake s sk client_info))"
  by (auto simp: handshake_def Let_def changes_add_clients_groups split: list.splits sum.splits)

lemma changes_handle_join: "change\<^sup>*\<^sup>* s (fst (handle_join s client_id g))"
proof (cases "map_of (connected_clients s) client_id")
  case None
  then show ?thesis by (simp add: handle_join_def)
next
  case (Some c)
  show ?thesis
  proof (cases "map_of (groups s) g")
    case None
    let ?sb = "s\<lparr>boards := AList.update g [] (boards s)\<rparr>"
    have 1: "change s ?sb"
      using None by (simp add: change.new_board)
    have "map_of (groups ?sb) g = None"
      using None by simp
    from change.new_group [OF this, of "[name c]"]
    have "change ?sb (?sb\<lparr>groups := AList.update g (next_addr s) (groups s),
                          heap := (heap s)(next_addr s := [name c]),
                          next_addr := next_addr s + 1\<rparr>)"
      by simp
    moreover have "fst (handle_join s client_id g) =
                     ?sb\<lparr>groups := AList.update g (next_addr s) (groups s),
                          heap := (heap s)(next_addr s := [name c]),
                          next_addr := next_addr s + 1\<rparr>"
      using Some None by (cases s) (simp add: handle_join_def)
    ultimately have 2: "change ?sb (fst (handle_join s client_id g))"
      by simp
    from 1 2 show ?thesis by auto
  next
    case a: (Some a)
    have "change s (s\<lparr>heap := (heap s)(a := heap s a @ [name c])\<rparr>)"
      using a by (rule change.write_list)
    then show ?thesis
      using Some a by (auto simp: handle_join_def Let_def split: option.splits)
  qed
qed

lemma changes_handle_post:
  "change\<^sup>*\<^sup>* s (fst (handle_post s client_id g subj words today))"
  by (auto simp: handle_post_def Let_def split: option.splits
      intro!: r_into_rtranclp change_new_message_Suc)

lemma changes_handle_message: "fst (handle_message s client_id g message_id) = s"
  by (simp add: handle_message_def split: option.splits sum.splits)

lemma changes_handle_leave: "change\<^sup>*\<^sup>* s (fst (handle_leave s client_id g))"
  by (auto simp: handle_leave_def Let_def split: option.splits
      intro!: r_into_rtranclp change.write_list)

lemma fst_after_handler: "fst (after_handler r) = fst r"
  by (cases r; cases "snd (snd r)") (simp_all add: after_handler_def)


lemma change_registry_only: "change s (s\<lparr>connected_clients := r\<rparr>)"
  using change.registry [where s = s and n = "client_ids s" and r = r] by simp

lemma changes_dispatch:
  "change\<^sup>*\<^sup>* s (fst (dispatch s client_id client_name sk today data))"
  unfolding dispatch_def
  by (auto simp: fst_after_handler changes_handle_join changes_handle_post
        changes_handle_leave changes_handle_message Let_def
      split: list.splits option.splits
      intro!: r_into_rtranclp change_registry_only)

lemma changes_step: "change\<^sup>*\<^sup>* s (step s e)"
  by (cases e) (simp_all add: step_def changes_handshake changes_dispatch)

lemma changes_run: "change\<^sup>*\<^sup>* s (run s es)"
proof (induction es arbitrary: s)
  case Nil
  show ?case by (simp add: run_def)
next
  case (Cons e es)
  have "change\<^sup>*\<^sup>* s (step s e)" by (rule changes_step)
  also have "change\<^sup>*\<^sup>* (step s e) (run (step s e) es)" by (rule Cons.IH)
  finally show ?case by (simp add: run_def)
qed

lemma server_inv_init: "server_inv server_init"
  by (simp add: server_inv_def store_ok_def server_init_def gapless_def)

lemma run_keeps: "server_inv s \<Longrightarrow> keeps s (run s es)"
  using changes_run by (rule changes_keeps)

lemma run_inv: "server_inv s \<Longrightarrow> server_inv (run s es)"
  using changes_run by (rule changes_inv)

lemma handle_post_member:
  assumes "server_inv s"
    and "map_of (connected_clients s) client_id = Some c"
    and "map_of (groups s) g = Some a"
    and "name c \<in> set (heap s a)"
    and "map_of (boards s) g = Some b"
  shows "fst (handle_post s client_id g subj words today) =
           s\<lparr>boards := AList.update g (b @ [(int (length b), new_entry s c subj words today)]) (boards s),
             heap := (heap s)(next_addr s := heap s a),
             next_addr := Suc (next_addr s)\<rparr>"
proof -
  have "gapless b"
    using server_invD2 [OF assms(1) map_of_SomeD [OF assms(5)]] .
  from gapless_post [OF this] show ?thesis
    using assms(2-5) by (simp add: handle_post_def Let_def new_entry_def)
qed

lemma group_addr_allocated:
  assumes "server_inv s" "map_of (groups s) g = Some a"
  shows "a < next_addr s"
  using store_okD1 [OF server_invD1 [OF assms(1)] map_of_SomeD [OF assms(2)]] .

lemma post_all_boards:
  assumes "server_inv s"
    and "map_of (boards s) g = Some b"
    and "\<forall>p \<in> set ps. member_session s g (fst p)"
  shows "\<exists>ms. map_of (boards (post_all s g ps)) g = Some (b @ ms) \<and>
              map fst ms = map int [length b ..< length b + length ps] \<and>
              map (subject \<circ> snd) ms = map (fst \<circ> snd) ps"
  using assms
proof (induction ps arbitrary: s b)
  case Nil
  then show ?case by simp
next
  case (Cons p ps)
  obtain client_id subj words today where p: "p = (client_id, subj, words, today)"
    by (cases p) auto
  from Cons.prems(3) p have "member_session s g client_id" by simp
  then obtain c a where c: "map_of (connected_clients s) client_id = Some c"
    and a: "map_of (groups s) g = Some a" and mem: "name c \<in> set (heap s a)"
    by (auto simp: member_session_def members_def split: option.splits)
  let ?e = "new_entry s c subj words today"
  let ?s' = "fst (handle_post s client_id g subj words today)"
  have s': "?s' = s\<lparr>boards := AList.update g (b @ [(int (length b), ?e)]) (boards s),
                     heap := (heap s)(next_addr s := heap s a),
                     next_addr := Suc (next_addr s)\<rparr>"
    using Cons.prems(1) c a mem Cons.prems(2) by (rule handle_post_member)
  have inv': "server_inv ?s'"
    using changes_handle_post Cons.prems(1) by (rule changes_inv)
  have b': "map_of (boards ?s') g = Some (b @ [(int (length b), ?e)])"
    by (simp add: s' AList.update_conv')
  have ne: "a \<noteq> next_addr s"
    using group_addr_allocated [OF Cons.prems(1) a] by simp
  have "members ?s' g = members s g"
    using a ne by (simp add: s' members_def)
  moreover have "connected_clients ?s' = connected_clients s"
    by (simp add: s')
  ultimately have same: "\<And>cid. member_session ?s' g cid = member_session s g cid"
    by (simp only: member_session_def)
  have rest: "\<forall>q \<in> set ps. member_session ?s' g (fst q)"
    using Cons.prems(3) same by simp
  let ?b' = "b @ [(int (length b), ?e)]"
  from Cons.IH [OF inv' b' rest] obtain ms where
    ms1: "map_of (boards (post_all ?s' g ps)) g = Some (?b' @ ms)"
    and ms2: "map fst ms = map int [length ?b' ..< length ?b' + length ps]"
    and ms3: "map (subject \<circ> snd) ms = map (fst \<circ> snd) ps"
    by blast
  have "post_all s g (p # ps) = post_all ?s' g ps"
    by (simp add: p)
  with ms1 have "map_of (boards (post_all s g (p # ps))) g = Some (b @ ((int (length b), ?e) # ms))"
    by simp
  moreover have "map fst ((int (length b), ?e) # ms) =
                   map int [length b ..< length b + length (p # ps)]"
  proof -
    have e1: "length ?b' = Suc (length b)"
      by simp
    have e2: "Suc (length b) + length ps = length b + length (p # ps)"
      by simp
    have "length b < length b + length (p # ps)"
      by simp
    then have "[length b ..< length b + length (p # ps)] =
                 length b # [Suc (length b) ..< length b + length (p # ps)]"
      by (rule upt_conv_Cons)
    moreover have "map fst ms = map int [Suc (length b) ..< length b + length (p # ps)]"
      using ms2 unfolding e1 e2 .
    ultimately show ?thesis
      by (simp only: list.map fst_conv)
  qed
  moreover have "subject ?e = fst (snd p)"
    by (simp add: p new_entry_def)
  with ms3 have "map (subject \<circ> snd) ((int (length b), ?e) # ms) = map (fst \<circ> snd) (p # ps)"
    by simp
  ultimately show ?case by blast
qed

section \<open>Decimal strings\<close>

lemma digit_disj:
  "d < (10::nat) \<Longrightarrow>
   d = 0 \<or> d = 1 \<or> d = 2 \<or> d = 3 \<or> d = 4 \<or> d = 5 \<or> d = 6 \<or> d = 7 \<or> d = 8 \<or> d = 9"
  by arith

lemma digit_cases:
  assumes "d < (10::nat)"
  obtains "d = 0" | "d = 1" | "d = 2" | "d = 3" | "d = 4" | "d = 5" | "d = 6" | "d = 7" | "d = 8" | "d = 9"
  using digit_disj [OF assms] by blast

lemma digit_val_digit_char: "d < 10 \<Longrightarrow> digit_val (digit_char d) = Some d"
  by (erule digit_cases) (simp_all add: digit_val_def digit_char_def)

lemma digit_char_plain:
  "d < 10 \<Longrightarrow> \<not> is_space (digit_char d) \<and> digit_char d \<noteq> CHR ''-'' \<and> digit_char d \<noteq> CHR ''+''"
  by (erule digit_cases) (simp_all add: is_space_def digit_char_def)

lemma is_digit_not_underscore: "is_digit c \<Longrightarrow> c \<noteq> CHR ''_''"
  unfolding is_digit_def by (auto elim!: digit_cases simp: digit_char_def)

lemma is_digit_val: "is_digit c \<Longrightarrow> \<exists>v. digit_val c = Some v"
  unfolding is_digit_def using digit_val_digit_char by auto

lemma parse_digits_value:
  "\<forall>c \<in> set ds. is_digit c \<Longrightarrow> parse_digits acc ds = Some (digits_value acc ds)"
proof (induction acc ds rule: parse_digits.induct)
  case (1 acc)
  show ?case by (simp add: digits_value_def)
next
  case (2 acc c)
  then have "is_digit c" by simp
  then obtain v where "digit_val c = Some v"
    using is_digit_val by blast
  then show ?case by (simp add: digits_value_def)
next
  case (3 acc c d ds)
  have dc: "is_digit c"
    using "3.prems" by simp
  have c: "c \<noteq> CHR ''_''"
    using dc by (rule is_digit_not_underscore)
  obtain v where v: "digit_val c = Some v"
    using is_digit_val [OF dc] by blast
  have "parse_digits (10 * acc + v) (d # ds) = Some (digits_value (10 * acc + v) (d # ds))"
    using "3.IH"(2) [OF c v] "3.prems" by simp
  then show ?case
    using c v by (simp add: digits_value_def)
qed

lemma str_nat_digits: "\<forall>c \<in> set (str_nat n). is_digit c"
proof (induction n rule: str_nat.induct)
  case (1 n)
  show ?case
  proof (cases "n < 10")
    case True
    then show ?thesis
      by (subst str_nat.simps) (auto simp: is_digit_def)
  next
    case False
    have "n mod 10 < 10" by simp
    then have "is_digit (digit_char (n mod 10))"
      unfolding is_digit_def by blast
    with False 1 show ?thesis
      by (subst str_nat.simps) simp
  qed
qed

lemma str_nat_nonempty: "str_nat n \<noteq> []"
  by (subst str_nat.simps) simp

lemma digits_value_str_nat: "digits_value 0 (str_nat n) = n"
proof (induction n rule: str_nat.induct)
  case (1 n)
  show ?case
  proof (cases "n < 10")
    case True
    then show ?thesis
      by (subst str_nat.simps) (simp add: digits_value_def digit_val_digit_char)
  next
    case False
    have "digits_value 0 (str_nat (n div 10) @ [digit_char (n mod 10)]) =
            10 * digits_value 0 (str_nat (n div 10)) + n mod 10"
      by (simp add: digits_value_def digit_val_digit_char)
    with False 1 show ?thesis
      by (subst str_nat.simps) simp
  qed
qed

lemma parse_nat_str_nat: "parse_nat (str_nat n) = Some n"
proof -
  obtain c cs where s: "str_nat n = c # cs"
    using str_nat_nonempty [of n] by (cases "str_nat n") auto
  have all: "\<forall>x \<in> set (c # cs). is_digit x"
    using str_nat_digits [of n] s by simp
  then obtain v where v: "digit_val c = Some v"
    using is_digit_val by auto
  have "parse_digits v cs = Some (digits_value v cs)"
    using all by (intro parse_digits_value) simp
  moreover have "digits_value v cs = digits_value 0 (c # cs)"
    using v by (simp add: digits_value_def)
  ultimately show ?thesis
    using s v digits_value_str_nat [of n] by (simp add: parse_nat_def)
qed

lemma strip_plain:
  assumes "s \<noteq> []" "\<not> is_space (hd s)" "\<not> is_space (last s)"
  shows "strip s = s"
proof -
  have 1: "dropWhile is_space s = s"
    using assms(1,2) by (cases s) auto
  have 2: "dropWhile is_space (rev s) = rev s"
    using assms(1,3) by (cases "rev s") (auto simp: last_rev [symmetric] hd_rev)
  show ?thesis
    by (simp add: strip_def 1 2)
qed

lemma is_digit_plain:
  "is_digit c \<Longrightarrow> \<not> is_space c \<and> c \<noteq> CHR ''-'' \<and> c \<noteq> CHR ''+''"
  unfolding is_digit_def using digit_char_plain by auto

lemma py_int_py_str: "py_int (py_str i) = Some i"
proof (cases "i < 0")
  case True
  let ?d = "str_nat (nat (- i))"
  have ne: "?d \<noteq> []" by (rule str_nat_nonempty)
  then have "last (CHR ''-'' # ?d) = last ?d" by simp
  moreover have "is_digit (last ?d)"
    using str_nat_digits [of "nat (- i)"] ne last_in_set by blast
  ultimately have "\<not> is_space (last (CHR ''-'' # ?d))"
    using is_digit_plain by simp
  moreover have "\<not> is_space (CHR ''-'')"
    by (simp add: is_space_def)
  ultimately have "strip (CHR ''-'' # ?d) = CHR ''-'' # ?d"
    by (intro strip_plain) simp_all
  then show ?thesis
    using True by (simp add: py_int_def py_str_def parse_nat_str_nat)
next
  case False
  let ?d = "str_nat (nat i)"
  obtain c cs where s: "?d = c # cs"
    using str_nat_nonempty [of "nat i"] by (cases ?d) auto
  have dig: "is_digit c" "is_digit (last ?d)"
    using str_nat_digits [of "nat i"] s last_in_set [of ?d] by auto
  then have "strip ?d = ?d"
    using s is_digit_plain by (intro strip_plain) auto
  moreover have "c \<noteq> CHR ''-''" "c \<noteq> CHR ''+''"
    using dig(1) is_digit_plain by auto
  ultimately show ?thesis
    using False s parse_nat_str_nat [of "nat i"] by (simp add: py_int_def py_str_def)
qed

lemma py_int_examples:
  "py_int [CHR 0x1C, CHR ''0''] = None \<and> py_int [CHR ''0'', CHR 0x1F] = None \<and>
   py_int [CHR 0xA0, CHR ''0''] = Some 0 \<and> py_int [CHR ''0'', CHR 0x85] = Some 0 \<and>
   py_int [CHR 0x09, CHR ''7'', CHR 0x0A] = Some 7 \<and>
   py_int ''00'' = Some 0 \<and> py_int ''+1_0'' = Some 10 \<and> py_int ''-7'' = Some (- 7) \<and>
   py_int ''1__0'' = None \<and> py_int ''1 2'' = None \<and> py_int ''- 1'' = None \<and> py_int [] = None"
  by code_simp

lemma inj_py_str: "inj py_str"
  by (rule inj_on_inverseI [where g = "\<lambda>t. the (py_int t)"]) (simp add: py_int_py_str)


section \<open>Loading what was written\<close>

lemma fold_update_append:
  "distinct (map fst (acc @ kvs)) \<Longrightarrow> fold (\<lambda>(k, v). AList.update k v) kvs acc = acc @ kvs"
proof (induction kvs arbitrary: acc)
  case Nil
  show ?case by simp
next
  case (Cons kv kvs)
  obtain k v where kv: "kv = (k, v)" by (cases kv)
  have "k \<notin> fst ` set acc"
    using Cons.prems kv by auto
  then have "map_of acc k = None"
    by (simp add: map_of_eq_None_iff)
  then have u: "AList.update k v acc = acc @ [(k, v)]"
    by (rule update_fresh)
  have "distinct (map fst ((acc @ [(k, v)]) @ kvs))"
    using Cons.prems kv by simp
  from Cons.IH [OF this] show ?case
    by (simp add: kv u)
qed

lemma dict_of_distinct: "distinct (map fst kvs) \<Longrightarrow> dict_of kvs = kvs"
  using fold_update_append [of "[]" kvs] by (simp add: dict_of_def)

lemma grows_refl: "grows s s"
  by (simp add: grows_def)

lemma grows_trans: "grows s s' \<Longrightarrow> grows s' s'' \<Longrightarrow> grows s s''"
  by (auto simp: grows_def)

lemma grows_new_list: "grows s (snd (new_list xs s))"
  by (simp add: grows_def new_list_def)

lemma dump_message_grows:
  "grows s s' \<Longrightarrow> users_at_time_of_posting m < next_addr s \<Longrightarrow> dump_message s' m = dump_message s m"
  by (simp add: grows_def dump_message_def)

lemma load_lists_spec:
  "load_lists f s = (gs, s') \<Longrightarrow>
   map fst gs = map fst f \<and> map (\<lambda>x. heap s' (snd x)) gs = map snd f \<and> grows s s' \<and>
   (\<forall>a \<in> snd ` set gs. a < next_addr s') \<and> boards s' = boards s \<and>
   client_ids s' = client_ids s \<and> connected_clients s' = connected_clients s"
proof (induction f arbitrary: s gs s')
  case Nil
  then show ?case by (auto simp: grows_refl)
next
  case (Cons p rest)
  obtain g us where p: "p = (g, us)" by (cases p)
  let ?s1 = "s\<lparr>heap := (heap s)(next_addr s := us), next_addr := Suc (next_addr s)\<rparr>"
  obtain gs' s'' where r: "load_lists rest ?s1 = (gs', s'')"
    by (cases "load_lists rest ?s1")
  from Cons.prems have res: "gs = (g, next_addr s) # gs'" "s' = s''"
    by (simp_all add: p new_list_def r)
  from Cons.IH [OF r] have ih:
    "map fst gs' = map fst rest" "map (\<lambda>x. heap s'' (snd x)) gs' = map snd rest" "grows ?s1 s''"
    "\<forall>a \<in> snd ` set gs'. a < next_addr s''" "boards s'' = boards s"
    "client_ids s'' = client_ids s" "connected_clients s'' = connected_clients s"
    by simp_all
  have g1: "grows s ?s1"
    by (simp add: grows_def)
  have "heap s'' (next_addr s) = us"
    using ih(3) by (simp add: grows_def)
  moreover have "next_addr s < next_addr s''"
    using ih(3) by (simp add: grows_def)
  ultimately show ?case
    using ih grows_trans [OF g1 ih(3)] by (simp add: res p)
qed

lemma load_messages_spec:
  "load_messages js s = (ms, s') \<Longrightarrow>
   map (\<lambda>(k, m). (k, dump_message s' m)) ms = js \<and> grows s s' \<and>
   (\<forall>m \<in> snd ` set ms. users_at_time_of_posting m < next_addr s') \<and>
   groups s' = groups s \<and> boards s' = boards s \<and>
   client_ids s' = client_ids s \<and> connected_clients s' = connected_clients s"
proof (induction js arbitrary: s ms s')
  case Nil
  then show ?case by (auto simp: grows_refl)
next
  case (Cons p rest)
  obtain k j where p: "p = (k, j)" by (cases p)
  let ?s1 = "s\<lparr>heap := (heap s)(next_addr s := j_users_at_time_of_posting j),
                next_addr := Suc (next_addr s)\<rparr>"
  let ?m = "\<lparr>sender = j_sender j, date = DateStr (j_date j), subject = j_subject j,
             message = j_message j, users_at_time_of_posting = next_addr s\<rparr>"
  obtain ms' s'' where r: "load_messages rest ?s1 = (ms', s'')"
    by (cases "load_messages rest ?s1")
  from Cons.prems have res: "ms = (k, ?m) # ms'" "s' = s''"
    by (simp_all add: p new_list_def r)
  from Cons.IH [OF r] have ih:
    "map (\<lambda>(k, m). (k, dump_message s'' m)) ms' = rest" "grows ?s1 s''"
    "\<forall>m \<in> snd ` set ms'. users_at_time_of_posting m < next_addr s''"
    "groups s'' = groups s" "boards s'' = boards s"
    "client_ids s'' = client_ids s" "connected_clients s'' = connected_clients s"
    by simp_all
  have g1: "grows s ?s1"
    by (simp add: grows_def)
  have "dump_message s'' ?m = dump_message ?s1 ?m"
    using ih(2) by (rule dump_message_grows) simp
  also have "\<dots> = j"
    by (simp add: dump_message_def)
  finally have d: "dump_message s'' ?m = j" .
  have "next_addr s < next_addr s''"
    using ih(2) by (simp add: grows_def)
  then show ?case
    using ih grows_trans [OF g1 ih(2)] d by (simp add: res p)
qed


lemma map_dump_grows:
  assumes "grows s s'" "\<forall>m \<in> snd ` set ms. users_at_time_of_posting m < next_addr s"
  shows "map (\<lambda>(k, m). (k, dump_message s' m)) ms = map (\<lambda>(k, m). (k, dump_message s m)) ms"
proof (rule map_cong [OF refl])
  fix x
  assume x: "x \<in> set ms"
  then have "users_at_time_of_posting (snd x) < next_addr s"
    using assms(2) by simp
  from dump_message_grows [OF assms(1) this]
  show "(case x of (k, m) \<Rightarrow> (k, dump_message s' m)) = (case x of (k, m) \<Rightarrow> (k, dump_message s m))"
    by (cases x) simp
qed

lemma load_boards_spec:
  "load_boards bf s = (raw, s') \<Longrightarrow> \<forall>js \<in> snd ` set bf. distinct (map fst js) \<Longrightarrow>
   map (\<lambda>(g, ms). (g, map (\<lambda>(k, m). (k, dump_message s' m)) ms)) raw = bf \<and> grows s s' \<and>
   (\<forall>ms \<in> snd ` set raw. \<forall>m \<in> snd ` set ms. users_at_time_of_posting m < next_addr s') \<and>
   groups s' = groups s \<and> boards s' = boards s \<and>
   client_ids s' = client_ids s \<and> connected_clients s' = connected_clients s"
proof (induction bf arbitrary: s raw s')
  case Nil
  then show ?case by (auto simp: grows_refl)
next
  case (Cons p rest)
  obtain g js where p: "p = (g, js)" by (cases p)
  obtain ms s1 where lm: "load_messages js s = (ms, s1)"
    by (cases "load_messages js s")
  obtain bs s'' where r: "load_boards rest s1 = (bs, s'')"
    by (cases "load_boards rest s1")
  from Cons.prems(1) have res: "raw = (g, dict_of ms) # bs" "s' = s''"
    by (simp_all add: p lm r)
  from load_messages_spec [OF lm] have m:
    "map (\<lambda>(k, m). (k, dump_message s1 m)) ms = js" "grows s s1"
    "\<forall>m \<in> snd ` set ms. users_at_time_of_posting m < next_addr s1"
    "groups s1 = groups s" "boards s1 = boards s"
    "client_ids s1 = client_ids s" "connected_clients s1 = connected_clients s"
    by simp_all
  have "\<forall>js \<in> snd ` set rest. distinct (map fst js)"
    using Cons.prems(2) by simp
  from Cons.IH [OF r this] have ih:
    "map (\<lambda>(g, ms). (g, map (\<lambda>(k, m). (k, dump_message s'' m)) ms)) bs = rest" "grows s1 s''"
    "\<forall>ms \<in> snd ` set bs. \<forall>m \<in> snd ` set ms. users_at_time_of_posting m < next_addr s''"
    "groups s'' = groups s1" "boards s'' = boards s1"
    "client_ids s'' = client_ids s1" "connected_clients s'' = connected_clients s1"
    by simp_all
  have "map fst (map (\<lambda>(k, m). (k, dump_message s1 m)) ms) = map fst js"
    by (simp only: m(1))
  then have keys: "map fst ms = map fst js"
    by (simp add: case_prod_beta comp_def)
  have "distinct (map fst js)"
    using Cons.prems(2) p by simp
  then have d: "dict_of ms = ms"
    using keys by (intro dict_of_distinct) simp
  have here: "map (\<lambda>(k, m). (k, dump_message s'' m)) ms = js"
    using map_dump_grows [OF ih(2) m(3)] m(1) by simp
  have "next_addr s1 \<le> next_addr s''"
    using ih(2) by (simp add: grows_def)
  then have bound: "\<forall>m \<in> snd ` set ms. users_at_time_of_posting m < next_addr s''"
    using m(3) by fastforce
  show ?case
    using ih m here bound grows_trans [OF m(2) ih(2)] by (simp add: res p d)
qed

lemma int_keys_spec:
  "\<forall>k \<in> fst ` set ms. k \<in> range py_str \<Longrightarrow>
   \<exists>b. int_keys ms = Inr b \<and> map (\<lambda>(k, m). (py_str k, m)) b = ms"
proof (induction ms)
  case Nil
  show ?case by simp
next
  case (Cons p ms)
  obtain k m where p: "p = (k, m)" by (cases p)
  from Cons.prems p obtain i where i: "k = py_str i"
    by auto
  from Cons obtain b where b: "int_keys ms = Inr b" "map (\<lambda>(k, m). (py_str k, m)) b = ms"
    by auto
  show ?case
    by (simp add: p i py_int_py_str b)
qed

lemma convert_boards_spec:
  "\<forall>ms \<in> snd ` set raw. distinct (map fst ms) \<and> (\<forall>k \<in> fst ` set ms. k \<in> range py_str) \<Longrightarrow>
   \<exists>bs. convert_boards raw = Inr bs \<and>
        map (\<lambda>(g, b). (g, map (\<lambda>(k, m). (py_str k, m)) b)) bs = raw"
proof (induction raw)
  case Nil
  show ?case by simp
next
  case (Cons p raw)
  obtain g ms where p: "p = (g, ms)" by (cases p)
  have dm: "distinct (map fst ms)" and cm: "\<forall>k \<in> fst ` set ms. k \<in> range py_str"
    using Cons.prems p by simp_all
  from int_keys_spec [OF cm] obtain b where
    b: "int_keys ms = Inr b" "map (\<lambda>(k, m). (py_str k, m)) b = ms"
    by blast
  have "map fst ms = map py_str (map fst b)"
    using b(2) by (auto simp: case_prod_beta comp_def)
  with dm have "distinct (map py_str (map fst b))"
    by (simp only:)
  then have "distinct (map fst b)"
    by (rule distinct_map [THEN iffD1, THEN conjunct1])
  then have d: "dict_of b = b"
    by (rule dict_of_distinct)
  from Cons obtain bs where
    bs: "convert_boards raw = Inr bs"
      "map (\<lambda>(g, b). (g, map (\<lambda>(k, m). (py_str k, m)) b)) bs = raw"
    by auto
  show ?case
    by (simp add: p b d bs)
qed


lemma load_messages_lower:
  "load_messages js s = (ms, s') \<Longrightarrow>
   \<forall>m \<in> snd ` set ms. next_addr s \<le> users_at_time_of_posting m"
proof (induction js arbitrary: s ms s')
  case Nil
  then show ?case by auto
next
  case (Cons p rest)
  obtain k j where p: "p = (k, j)" by (cases p)
  let ?s1 = "s\<lparr>heap := (heap s)(next_addr s := j_users_at_time_of_posting j),
                next_addr := Suc (next_addr s)\<rparr>"
  let ?m = "\<lparr>sender = j_sender j, date = DateStr (j_date j), subject = j_subject j,
             message = j_message j, users_at_time_of_posting = next_addr s\<rparr>"
  obtain ms' s'' where r: "load_messages rest ?s1 = (ms', s'')"
    by (cases "load_messages rest ?s1")
  from Cons.prems have res: "ms = (k, ?m) # ms'"
    by (simp add: p new_list_def r)
  from Cons.IH [OF r] have "\<forall>m \<in> snd ` set ms'. Suc (next_addr s) \<le> users_at_time_of_posting m"
    by simp
  then have "\<forall>m \<in> snd ` set ms'. next_addr s \<le> users_at_time_of_posting m"
    by fastforce
  then show ?case
    by (simp add: res)
qed

lemma load_boards_lower:
  "load_boards bf s = (raw, s') \<Longrightarrow> \<forall>js \<in> snd ` set bf. distinct (map fst js) \<Longrightarrow>
   \<forall>ms \<in> snd ` set raw. \<forall>m \<in> snd ` set ms. next_addr s \<le> users_at_time_of_posting m"
proof (induction bf arbitrary: s raw s')
  case Nil
  then show ?case by auto
next
  case (Cons p rest)
  obtain g js where p: "p = (g, js)" by (cases p)
  obtain ms s1 where lm: "load_messages js s = (ms, s1)"
    by (cases "load_messages js s")
  obtain bs s'' where r: "load_boards rest s1 = (bs, s'')"
    by (cases "load_boards rest s1")
  from Cons.prems(1) have res: "raw = (g, dict_of ms) # bs"
    by (simp add: p lm r)
  from load_messages_spec [OF lm] have m:
    "map (\<lambda>(k, m). (k, dump_message s1 m)) ms = js" "grows s s1"
    by simp_all
  have "map fst (map (\<lambda>(k, m). (k, dump_message s1 m)) ms) = map fst js"
    by (simp only: m(1))
  then have keys: "map fst ms = map fst js"
    by (simp add: case_prod_beta comp_def)
  have "distinct (map fst js)"
    using Cons.prems(2) p by simp
  then have d: "dict_of ms = ms"
    using keys by (intro dict_of_distinct) simp
  have here: "\<forall>m \<in> snd ` set ms. next_addr s \<le> users_at_time_of_posting m"
    using lm by (rule load_messages_lower)
  have "\<forall>js \<in> snd ` set rest. distinct (map fst js)"
    using Cons.prems(2) by simp
  from Cons.IH [OF r this]
  have "\<forall>ms \<in> snd ` set bs. \<forall>m \<in> snd ` set ms. next_addr s1 \<le> users_at_time_of_posting m" .
  moreover have "next_addr s \<le> next_addr s1"
    using m(2) by (simp add: grows_def)
  ultimately have "\<forall>ms \<in> snd ` set bs. \<forall>m \<in> snd ` set ms. next_addr s \<le> users_at_time_of_posting m"
    by fastforce
  with here show ?case
    by (simp add: res d)
qed

lemma startup_of_files:
  assumes dg: "distinct (map fst gf)"
    and db: "distinct (map fst bf)"
    and di: "\<forall>js \<in> snd ` set bf. distinct (map fst js) \<and> (\<forall>k \<in> fst ` set js. k \<in> range py_str)"
  shows "\<exists>s'. server_startup (Some gf) (Some bf) = Inr s' \<and>
              dump_groups s' = gf \<and> dump_boards s' = bf \<and>
              client_ids s' = 0 \<and> connected_clients s' = [] \<and> store_ok s'"
proof -
  obtain gs sA where ll: "load_lists gf server_init = (gs, sA)"
    by (cases "load_lists gf server_init")
  from load_lists_spec [OF ll] have a:
    "map fst gs = map fst gf" "map (\<lambda>x. heap sA (snd x)) gs = map snd gf"
    "\<forall>a \<in> snd ` set gs. a < next_addr sA"
    "client_ids sA = 0" "connected_clients sA = []"
    by (simp_all add: server_init_def)
  have dgs: "dict_of gs = gs"
    using dg a(1) by (intro dict_of_distinct) simp
  let ?s1 = "sA\<lparr>groups := gs\<rparr>"
  obtain raw s2 where lb: "load_boards bf ?s1 = (raw, s2)"
    by (cases "load_boards bf ?s1")
  have dj: "\<forall>js \<in> snd ` set bf. distinct (map fst js)"
    using di by simp
  from load_boards_spec [OF lb dj] have b:
    "map (\<lambda>(g, ms). (g, map (\<lambda>(k, m). (k, dump_message s2 m)) ms)) raw = bf"
    "grows ?s1 s2" "groups s2 = gs" "client_ids s2 = 0" "connected_clients s2 = []"
    using a(4,5) by simp_all
  have "map fst (map (\<lambda>(g, ms). (g, map (\<lambda>(k, m). (k, dump_message s2 m)) ms)) raw) = map fst bf"
    by (simp only: b(1))
  then have "map fst raw = map fst bf"
    by (simp add: case_prod_beta comp_def)
  then have draw: "dict_of raw = raw"
    using db by (intro dict_of_distinct) simp
  have keys: "\<forall>ms \<in> snd ` set raw. distinct (map fst ms) \<and> (\<forall>k \<in> fst ` set ms. k \<in> range py_str)"
  proof
    fix ms
    assume "ms \<in> snd ` set raw"
    then obtain g where "(g, ms) \<in> set raw" by auto
    then have "(g, map (\<lambda>(k, m). (k, dump_message s2 m)) ms) \<in>
                 set (map (\<lambda>(g, ms). (g, map (\<lambda>(k, m). (k, dump_message s2 m)) ms)) raw)"
      by force
    then have "map (\<lambda>(k, m). (k, dump_message s2 m)) ms \<in> snd ` set bf"
      unfolding b(1) by force
    with di have f1: "distinct (map fst (map (\<lambda>(k, m). (k, dump_message s2 m)) ms))"
      and f2: "\<forall>k \<in> fst ` set (map (\<lambda>(k, m). (k, dump_message s2 m)) ms). k \<in> range py_str"
      by blast+
    have e1: "map fst (map (\<lambda>(k, m). (k, dump_message s2 m)) ms) = map fst ms"
      by (simp add: case_prod_beta comp_def)
    have e2: "fst ` set (map (\<lambda>(k, m). (k, dump_message s2 m)) ms) = fst ` set ms"
      by force
    from f1 have "distinct (map fst ms)"
      unfolding e1 .
    moreover from f2 have "\<forall>k \<in> fst ` set ms. k \<in> range py_str"
      unfolding e2 .
    ultimately show "distinct (map fst ms) \<and> (\<forall>k \<in> fst ` set ms. k \<in> range py_str)"
      by (rule conjI)
  qed
  from convert_boards_spec [OF keys] obtain bs where
    bs: "convert_boards raw = Inr bs"
      "map (\<lambda>(g, b). (g, map (\<lambda>(k, m). (py_str k, m)) b)) bs = raw"
    by blast
  let ?s' = "s2\<lparr>boards := bs\<rparr>"
  have start: "server_startup (Some gf) (Some bf) = Inr ?s'"
    by (simp add: server_startup_def ll dgs lb draw bs(1))
  have "map (\<lambda>x. heap s2 (snd x)) gs = map (\<lambda>x. heap sA (snd x)) gs"
    using a(3) b(2) by (auto simp: grows_def)
  then have "map snd (map (\<lambda>(g, a). (g, heap s2 a)) gs) = map snd gf"
    using a(2) by (simp add: case_prod_beta comp_def)
  moreover have "map fst (map (\<lambda>(g, a). (g, heap s2 a)) gs) = map fst gf"
    using a(1) by (simp add: case_prod_beta comp_def)
  ultimately have "map (\<lambda>(g, a). (g, heap s2 a)) gs = gf"
    by (intro pair_list_eqI)
  then have g: "dump_groups ?s' = gf"
    by (simp add: dump_groups_def b(3))
  have "dump_boards ?s' =
          map (\<lambda>(g, ms). (g, map (\<lambda>(k, m). (k, dump_message s2 m)) ms))
              (map (\<lambda>(g, b). (g, map (\<lambda>(k, m). (py_str k, m)) b)) bs)"
    by (simp add: dump_boards_def dump_message_def case_prod_beta comp_def)
  then have bb: "dump_boards ?s' = bf"
    by (simp only: bs(2) b(1))
  have lower: "\<forall>ms \<in> snd ` set raw. \<forall>m \<in> snd ` set ms. next_addr sA \<le> users_at_time_of_posting m"
    using load_boards_lower [OF lb dj] by simp
  have upper: "\<forall>ms \<in> snd ` set raw. \<forall>m \<in> snd ` set ms. users_at_time_of_posting m < next_addr s2"
    using load_boards_spec [OF lb dj] by simp
  have le: "next_addr sA \<le> next_addr s2"
    using b(2) by (simp add: grows_def)
  have ok: "store_ok ?s'"
  proof (rule store_okI)
    fix g a
    assume "(g, a) \<in> set (groups ?s')"
    then have "a \<in> snd ` set gs"
      by (force simp: b(3))
    with a(3) le show "a < next_addr ?s'"
      by fastforce
  next
    fix g c k m
    assume gc: "(g, c) \<in> set (boards ?s')" and km: "(k, m) \<in> set c"
    from gc have "(g, map (\<lambda>(k, m). (py_str k, m)) c) \<in>
                    set (map (\<lambda>(g, b). (g, map (\<lambda>(k, m). (py_str k, m)) b)) bs)"
      by force
    then have 1: "map (\<lambda>(k, m). (py_str k, m)) c \<in> snd ` set raw"
      unfolding bs(2) by force
    from km have 2: "m \<in> snd ` set (map (\<lambda>(k, m). (py_str k, m)) c)"
      by force
    from upper 1 2 show "users_at_time_of_posting m < next_addr ?s'"
      by fastforce
  next
    fix g c k m g'
    assume gc: "(g, c) \<in> set (boards ?s')" and km: "(k, m) \<in> set c"
    from gc have "(g, map (\<lambda>(k, m). (py_str k, m)) c) \<in>
                    set (map (\<lambda>(g, b). (g, map (\<lambda>(k, m). (py_str k, m)) b)) bs)"
      by force
    then have 1: "map (\<lambda>(k, m). (py_str k, m)) c \<in> snd ` set raw"
      unfolding bs(2) by force
    from km have 2: "m \<in> snd ` set (map (\<lambda>(k, m). (py_str k, m)) c)"
      by force
    from lower 1 2 have lo: "next_addr sA \<le> users_at_time_of_posting m"
      by fastforce
    show "(g', users_at_time_of_posting m) \<notin> set (groups ?s')"
    proof
      assume "(g', users_at_time_of_posting m) \<in> set (groups ?s')"
      then have "users_at_time_of_posting m \<in> snd ` set gs"
        by (force simp: b(3))
      with a(3) have "users_at_time_of_posting m < next_addr sA"
        by fastforce
      with lo show False by simp
    qed
  qed
  from start g bb b(4,5) ok show ?thesis
    by simp
qed



lemma restart_spec:
  assumes "dict_ok (groups s)"
    and "dict_ok (boards s)"
    and "\<forall>b \<in> snd ` set (boards s). dict_ok b"
  shows "\<exists>s'. restart s = Inr s' \<and>
              dump_groups s' = dump_groups s \<and> dump_boards s' = dump_boards s \<and>
              client_ids s' = 0 \<and> connected_clients s' = [] \<and> store_ok s'"
proof -
  have dg: "distinct (map fst (dump_groups s))"
    using assms(1) by (simp add: dump_groups_def dict_ok_def case_prod_beta comp_def)
  have db: "distinct (map fst (dump_boards s))"
    using assms(2) by (simp add: dump_boards_def dict_ok_def case_prod_beta comp_def)
  have di: "\<forall>js \<in> snd ` set (dump_boards s).
              distinct (map fst js) \<and> (\<forall>k \<in> fst ` set js. k \<in> range py_str)"
  proof
    fix js
    assume "js \<in> snd ` set (dump_boards s)"
    then obtain b where b: "b \<in> snd ` set (boards s)"
      and js: "js = map (\<lambda>(k, m). (py_str k, dump_message s m)) b"
      by (force simp: dump_boards_def)
    have keys: "map fst js = map py_str (map fst b)"
      by (simp add: js case_prod_beta comp_def)
    have "distinct (map fst b)"
      using assms(3) b by (auto simp: dict_ok_def)
    then have "distinct (map py_str (map fst b))"
      using inj_on_subset [OF inj_py_str subset_UNIV] by (simp only: distinct_map)
    then have "distinct (map fst js)"
      by (simp only: keys)
    moreover have "\<forall>k \<in> fst ` set js. k \<in> range py_str"
      by (force simp: js)
    ultimately show "distinct (map fst js) \<and> (\<forall>k \<in> fst ` set js. k \<in> range py_str)"
      by simp
  qed
  from startup_of_files [OF dg db di] show ?thesis
    by (simp add: restart_def server_shutdown_def)
qed

lemma restart_inv:
  assumes inv: "server_inv s"
    and d: "dict_ok (groups s)" "dict_ok (boards s)" "\<forall>b \<in> snd ` set (boards s). dict_ok b"
    and r: "restart s = Inr s'"
  shows "server_inv s'"
proof -
  from restart_spec [OF d] r have
    g: "dump_groups s' = dump_groups s" and b: "dump_boards s' = dump_boards s" and ok: "store_ok s'"
    by auto
  have "map fst (dump_groups s') = map fst (dump_groups s)"
    by (simp only: g)
  then have gk: "map fst (groups s') = map fst (groups s)"
    by (simp add: dump_groups_def case_prod_beta comp_def)
  have old: "\<And>g' c. (g', c) \<in> set (boards s') \<Longrightarrow>
               \<exists>c0. (g', c0) \<in> set (boards s) \<and> map fst c0 = map fst c"
  proof -
    fix g' c
    assume "(g', c) \<in> set (boards s')"
    then have "(g', map (\<lambda>(k, m). (py_str k, dump_message s' m)) c) \<in> set (dump_boards s')"
      by (force simp: dump_boards_def)
    then have "(g', map (\<lambda>(k, m). (py_str k, dump_message s' m)) c) \<in> set (dump_boards s)"
      by (simp only: b)
    then obtain c0 where c0: "(g', c0) \<in> set (boards s)"
      and eq: "map (\<lambda>(k, m). (py_str k, dump_message s m)) c0 =
               map (\<lambda>(k, m). (py_str k, dump_message s' m)) c"
      by (force simp: dump_boards_def)
    have "map fst (map (\<lambda>(k, m). (py_str k, dump_message s m)) c0) =
          map fst (map (\<lambda>(k, m). (py_str k, dump_message s' m)) c)"
      by (simp only: eq)
    then have "map py_str (map fst c0) = map py_str (map fst c)"
      by (simp add: case_prod_beta comp_def)
    then have "map fst c0 = map fst c"
      using inj_py_str by (simp only: inj_map_eq_map)
    with c0 show "\<exists>c0. (g', c0) \<in> set (boards s) \<and> map fst c0 = map fst c"
      by blast
  qed
  show ?thesis
  proof (rule server_invI [OF ok])
    fix g' c
    assume "(g', c) \<in> set (boards s')"
    from old [OF this] obtain c0 where c0: "(g', c0) \<in> set (boards s)" "map fst c0 = map fst c"
      by blast
    have "length c0 = length c"
      using c0(2) by (rule map_eq_imp_length_eq)
    moreover have "gapless c0"
      using server_invD2 [OF inv c0(1)] .
    ultimately show "gapless c"
      using c0(2) by (simp add: gapless_def)
  next
    fix g' c
    assume gc: "(g', c) \<in> set (boards s')" and ne: "c \<noteq> []"
    from old [OF gc] obtain c0 where c0: "(g', c0) \<in> set (boards s)" "map fst c0 = map fst c"
      by blast
    have "c0 \<noteq> []"
      using c0(2) ne by auto
    then have "g' \<in> fst ` set (groups s)"
      using server_invD3 [OF inv c0(1)] by simp
    moreover have "fst ` set (groups s') = fst ` set (groups s)"
      using gk by (metis set_map)
    ultimately show "g' \<in> fst ` set (groups s')"
      by simp
  qed
qed

lemma message_view_dump: "message_view s m = stored_view (dump_message s m)"
  by (cases "date m") (simp_all add: message_view_def stored_view_def dump_message_def default_serializer_def)

lemma board_store_dump:
  "board_store s =
     map (\<lambda>(g, js). (g, map (\<lambda>(k, j). (the (py_int k), stored_view j)) js)) (dump_boards s)"
  by (simp add: board_store_def dump_boards_def case_prod_beta comp_def py_int_py_str message_view_dump)

section \<open>Reading a message\<close>

text \<open>
  C1. The claim: a member may read an existing message when their name is in its snapshot
  or when its id is at least their join point minus 2. The server does not do the second:
  in the example run Bob joined \<open>book-club\<close> when its board held one message, so message 0
  lies inside Bob's catch-up window, and yet Bob's request for it is answered with the
  too-far-in-the-past error.
\<close>

theorem catch_up_read_refused:
  "dispatch book_club_state 1 ''bob'' 8 (DateObj 2024 3 8) ''groupmessage book-club 0'' =
     (book_club_state, [(8, too_far_text)], Continue)"
proof -
  have "snd (dispatch book_club_state 1 ''bob'' 8 (DateObj 2024 3 8) ''groupmessage book-club 0'') =
          ([(8, too_far_text)], Continue)"
    by code_simp
  moreover have
    "fst (dispatch book_club_state 1 ''bob'' 8 (DateObj 2024 3 8) ''groupmessage book-club 0'') =
       book_club_state"
    by (simp add: dispatch_def after_handler_def handle_message_def
          split: option.split sum.split list.split)
  ultimately show ?thesis
    by (metis prod.collapse)
qed




text \<open>
  C10. A member's read request whose id names no message of the board (\<^verbatim>\<open>int\<close> rejects
  the parameter, or the number it yields is not an id of the board, or the group has no
  board) is answered with the not-found message; the state is unchanged and the loop goes
  on.
\<close>

theorem read_unknown_id_not_found:
  assumes "(split_sp data = [''message'', p] \<and> g = ''default'') \<or>
           split_sp data = [''groupmessage'', g, p]"
    and "map_of (connected_clients s) client_id = Some c"
    and "map_of (groups s) g = Some a"
    and "name c \<in> set (heap s a)"
    and "\<forall>b i. map_of (boards s) g = Some b \<longrightarrow> py_int p = Some i \<longrightarrow> map_of b i = None"
  shows "dispatch s client_id client_name sk today data =
           (s, [(client_socket c, ''Error: Message ID does not exist.'')], Continue)"
proof -
  have ne: "data \<noteq> []"
    using assms(1) by auto
  have "\<exists>e. read_message s (name c) g p = Inl e"
    using assms(5) by (auto simp: read_message_def split: option.splits)
  then have hm: "handle_message s client_id g p =
                   (s, [(client_socket c, ''Error: Message ID does not exist.'')], None)"
    using assms(2-4) by (auto simp: handle_message_def)
  from assms(1) show ?thesis
  proof
    assume "split_sp data = [''message'', p] \<and> g = ''default''"
    then show ?thesis
      using ne hm by (simp add: dispatch_def after_handler_def)
  next
    assume "split_sp data = [''groupmessage'', g, p]"
    then show ?thesis
      using ne hm by (simp add: dispatch_def after_handler_def)
  qed
qed

theorem read_unknown_id_not_found_witness:
  "split_sp ''groupmessage book-club abc'' = [''groupmessage'', ''book-club'', ''abc''] \<and>
   map_of (connected_clients book_club_state) 0 = Some alice \<and>
   map_of (groups book_club_state) ''book-club'' = Some 1 \<and>
   name alice \<in> set (heap book_club_state 1) \<and>
   py_int ''abc'' = None \<and>
   dispatch book_club_state 0 ''alice'' 7 (DateObj 2024 3 9) ''groupmessage book-club abc'' =
     (book_club_state, [(client_socket alice, ''Error: Message ID does not exist.'')], Continue)"
proof -
  have sp: "split_sp ''groupmessage book-club abc'' = [''groupmessage'', ''book-club'', ''abc'']"
    by simp
  then have h1: "(split_sp ''groupmessage book-club abc'' = [''message'', ''abc''] \<and>
             ''book-club'' = ''default'') \<or>
            split_sp ''groupmessage book-club abc'' = [''groupmessage'', ''book-club'', ''abc'']"
    by simp
  have h4: "name alice \<in> set (heap book_club_state 1)"
    using book_club_members by (simp add: alice_def)
  have abc: "py_int ''abc'' = None"
    by code_simp
  have h5: "\<forall>b i. map_of (boards book_club_state) ''book-club'' = Some b \<longrightarrow>
                  py_int ''abc'' = Some i \<longrightarrow> map_of b i = None"
    by (simp add: abc)
  show ?thesis
    using read_unknown_id_not_found [OF h1 book_club_alice book_club_group h4 h5]
      sp book_club_alice book_club_group h4 abc
    by blast
qed

section \<open>The dispatch loop on malformed requests\<close>

text \<open>
  C3. The claim: a request with a known verb and too few parameters (\<open>groupjoin\<close>: not
  exactly one) gets one error response, changes no state, and the loop goes on. The first
  two hold; the third does not: each of these branches ends in \<^verbatim>\<open>break\<close>, which leaves the
  \<^verbatim>\<open>while True\<close> loop, so whatever the client sends next is never read.
\<close>

theorem malformed_request_ends_loop:
  assumes "split_sp data = command # params"
    and "(command = ''post'' \<and> length params < 2) \<or>
         (command = ''groupjoin'' \<and> length params \<noteq> 1) \<or>
         (command = ''grouppost'' \<and> length params < 3) \<or>
         (command = ''message'' \<and> length params < 1) \<or>
         (command = ''groupmessage'' \<and> length params < 2)"
  shows "\<exists>txt. serve s client_id client_name sk ((today, data) # rest) = (s, [(sk, txt)], Break, rest)"
proof -
  have ne: "data \<noteq> []"
    using assms by auto
  have "\<exists>txt. dispatch s client_id client_name sk today data = (s, [(sk, txt)], Break)"
    using assms(2)
  proof (elim disjE conjE)
    assume "command = ''post''" "length params < 2"
    then show ?thesis
      using assms(1) ne by (cases params; cases "tl params") (auto simp: dispatch_def)
  next
    assume "command = ''groupjoin''" "length params \<noteq> 1"
    then show ?thesis
      using assms(1) ne by (cases params; cases "tl params") (auto simp: dispatch_def)
  next
    assume "command = ''grouppost''" "length params < 3"
    then show ?thesis
      using assms(1) ne
      by (cases params; cases "tl params"; cases "tl (tl params)") (auto simp: dispatch_def)
  next
    assume "command = ''message''" "length params < 1"
    then show ?thesis
      using assms(1) ne by (auto simp: dispatch_def)
  next
    assume "command = ''groupmessage''" "length params < 2"
    then show ?thesis
      using assms(1) ne by (cases params; cases "tl params") (auto simp: dispatch_def)
  qed
  then show ?thesis by auto
qed

theorem malformed_request_ends_loop_witness:
  "split_sp ''post'' = [''post''] \<and>
   serve book_club_state 0 ''alice'' 7 [(DateObj 2024 3 9, ''post''), (DateObj 2024 3 9, ''help'')] =
     (book_club_state, [(7, ''Error: Missing subject or message.'')], Break, [(DateObj 2024 3 9, ''help'')])"
  using malformed_request_ends_loop [of "''post''" "''post''" "[]" book_club_state 0 "''alice''" 7
      "DateObj 2024 3 9" "[(DateObj 2024 3 9, ''help'')]"]
  by (simp add: dispatch_def)

section \<open>The handshake reply\<close>

text \<open>
  C6. The claim: the reply carries the client id and at most five group names, with
  \<open>...\<close> after them when more groups exist. The reply always is the id and the first
  five names, and nothing after them: the test for the marker looks at the list that has
  already been cut to five.
\<close>

theorem handshake_reply_lists_five:
  assumes "groups s \<noteq> []"
  shows "handshake_reply s client_id =
           Inr (''id '' @ py_str (int client_id) @ '' Current server groups: '' @
                py_join '', '' (take 5 (map fst (groups s))))"
  using assms by (simp add: handshake_reply_def Let_def)

lemma busy_groups: "map fst (groups busy_state) = [''default'', ''a'', ''b'', ''c'', ''d'', ''e'']"
  by code_simp

theorem handshake_reply_lists_five_witness:
  "map fst (groups busy_state) = [''default'', ''a'', ''b'', ''c'', ''d'', ''e''] \<and>
   handshake_reply busy_state 5 = Inr ''id 5 Current server groups: default, a, b, c, d''"
proof -
  have ne: "groups busy_state \<noteq> []"
    using busy_groups by auto
  have five: "py_str (int 5) = ''5''"
    by code_simp
  show ?thesis
    using handshake_reply_lists_five [OF ne, of 5] busy_groups five by simp
qed

section \<open>Joining a group twice\<close>

text \<open>
  C8. A \<open>join\<close> or \<open>groupjoin\<close> for an existing group by a session whose user is in it
  already: the only send is the already-part-of-group reply to the caller, and the whole
  state (groups, boards, registry, store) is the one before.
\<close>

theorem join_when_already_member:
  assumes "(split_sp data = [''join''] \<and> g = ''default'') \<or> split_sp data = [''groupjoin'', g]"
    and "map_of (connected_clients s) client_id = Some c"
    and "map_of (groups s) g = Some a"
    and "name c \<in> set (heap s a)"
  shows "dispatch s client_id client_name sk today data =
           (s, [(client_socket c, ''Already part of group '' @ quoted g @ ''.'')], Continue)"
proof -
  have ne: "data \<noteq> []" using assms(1) by auto
  have hj: "handle_join s client_id g =
              (s, [(client_socket c, ''Already part of group '' @ quoted g @ ''.'')], None)"
    using assms(2-4) by (simp add: handle_join_def)
  from assms(1) show ?thesis
  proof
    assume "split_sp data = [''join''] \<and> g = ''default''"
    then show ?thesis using ne hj by (simp add: dispatch_def after_handler_def)
  next
    assume "split_sp data = [''groupjoin'', g]"
    then show ?thesis using ne hj by (simp add: dispatch_def after_handler_def)
  qed
qed

theorem join_when_already_member_witness:
  "split_sp ''groupjoin book-club'' = [''groupjoin'', ''book-club''] \<and>
   map_of (connected_clients book_club_state) 1 = Some bob \<and>
   map_of (groups book_club_state) ''book-club'' = Some 1 \<and>
   name bob \<in> set (heap book_club_state 1) \<and>
   dispatch book_club_state 1 ''bob'' 8 (DateObj 2024 3 9) ''groupjoin book-club'' =
     (book_club_state, [(client_socket bob, ''Already part of group '' @ quoted ''book-club'' @ ''.'')],
      Continue)"
proof -
  have sp: "split_sp ''groupjoin book-club'' = [''groupjoin'', ''book-club'']"
    by simp
  then have h1: "(split_sp ''groupjoin book-club'' = [''join''] \<and> ''book-club'' = ''default'') \<or>
                 split_sp ''groupjoin book-club'' = [''groupjoin'', ''book-club'']"
    by simp
  have h4: "name bob \<in> set (heap book_club_state 1)"
    using book_club_members by (simp add: bob_def)
  show ?thesis
    using join_when_already_member [OF h1 book_club_bob book_club_group h4]
      sp book_club_bob book_club_group h4
    by blast
qed


section \<open>The notice of a post\<close>

text \<open>
  C2. The claim: the notice of a post goes to every current member of the group but the
  sender, never to the sender. In the example run Alice posts a second message to
  \<open>book-club\<close> and the notice is written to Alice's own socket: \<^const>\<open>handle_post\<close> has no
  other reply for the poster.
\<close>

theorem post_reaches_sender_counterexample:
  "(client_socket alice, post_notice ''book-club'' ''alice'' 1) \<in>
     set (fst (snd (dispatch book_club_state 0 ''alice'' 7 (DateObj 2024 3 9)
                      ''grouppost book-club Again Hello'')))"
  by code_simp

text \<open>
  C2, amended. A post by a member of the group sends the notice (group, sender, new id) to
  the socket of every registered session whose user name is in the group's list, in the
  order of the registry, and to no other; the poster's own session is one of them.
\<close>

theorem post_notifies_member_sessions:
  assumes "map_of (connected_clients s) client_id = Some c"
    and "map_of (groups s) g = Some a"
    and "a < next_addr s"
    and "name c \<in> set (heap s a)"
    and "map_of (boards s) g = Some b"
  shows "fst (snd (handle_post s client_id g subj words today)) =
           map (\<lambda>(cid, info). (client_socket info, post_notice g (name c) (int (length b))))
               (filter (\<lambda>(cid, info). name info \<in> set (heap s a)) (connected_clients s)) \<and>
         (client_socket c, post_notice g (name c) (int (length b))) \<in>
           set (fst (snd (handle_post s client_id g subj words today)))"
proof -
  have a: "a \<noteq> next_addr s"
    using assms(3) by simp
  have sends: "fst (snd (handle_post s client_id g subj words today)) =
           map (\<lambda>(cid, info). (client_socket info, post_notice g (name c) (int (length b))))
               (filter (\<lambda>(cid, info). name info \<in> set (heap s a)) (connected_clients s))"
    using assms(1,2,4,5) a by (simp add: handle_post_def Let_def post_notice_def)
  have "(client_id, c) \<in> set (connected_clients s)"
    using assms(1) by (rule map_of_SomeD)
  then have "(client_id, c) \<in>
      set (filter (\<lambda>(cid, info). name info \<in> set (heap s a)) (connected_clients s))"
    using assms(4) by simp
  then have "(client_socket c, post_notice g (name c) (int (length b))) \<in>
        set (map (\<lambda>(cid, info). (client_socket info, post_notice g (name c) (int (length b))))
               (filter (\<lambda>(cid, info). name info \<in> set (heap s a)) (connected_clients s)))"
    by force
  with sends show ?thesis by simp
qed

theorem post_notifies_member_sessions_witness:
  "fst (snd (handle_post book_club_state 1 ''book-club'' ''Again'' [''Hello''] (DateObj 2024 3 9))) =
     [(7, post_notice ''book-club'' ''bob'' 1), (8, post_notice ''book-club'' ''bob'' 1)] \<and>
   client_socket bob = 8"
proof -
  have h3: "(1::nat) < next_addr book_club_state"
    by code_simp
  have h4: "name bob \<in> set (heap book_club_state 1)"
    using book_club_members by (simp add: bob_def)
  have reg: "connected_clients book_club_state = [(0, alice), (1, bob)]"
    by code_simp
  show ?thesis
    using post_notifies_member_sessions [OF book_club_bob book_club_group h3 h4 book_club_board,
        of "''Again''" "[''Hello'']" "DateObj 2024 3 9"] book_club_members reg
    by (simp add: alice_def bob_def)
qed

section \<open>Message ids\<close>

text \<open>
  C4. Posts by member sessions, one after the other, to a group whose board holds
  \<open>length b\<close> messages: afterwards the ids on the board are \<open>0, 1, \<dots>\<close> up to the new size,
  in the order of the entries; the old entries are the first ones, unchanged, and the new
  entries follow in the order of posting. So every post takes the size of the board at
  that moment as its id, and on a board that starts empty the ids are \<open>0, \<dots>, N - 1\<close>.
\<close>

theorem post_ids_sequential:
  assumes "server_inv s"
    and "map_of (boards s) g = Some b"
    and "\<forall>p \<in> set ps. member_session s g (fst p)"
  shows "map fst (board_of (post_all s g ps) g) = map int [0 ..< length b + length ps] \<and>
         take (length b) (board_of (post_all s g ps) g) = b \<and>
         map (subject \<circ> snd) (drop (length b) (board_of (post_all s g ps) g)) = map (fst \<circ> snd) ps"
proof -
  from post_all_boards [OF assms] obtain ms where
    ms: "map_of (boards (post_all s g ps)) g = Some (b @ ms)"
      "map fst ms = map int [length b ..< length b + length ps]"
      "map (subject \<circ> snd) ms = map (fst \<circ> snd) ps"
    by blast
  have gb: "map fst b = map int [0 ..< length b]"
    using server_invD2 [OF assms(1) map_of_SomeD [OF assms(2)]] by (simp only: gapless_def)
  have bo: "board_of (post_all s g ps) g = b @ ms"
    by (simp add: board_of_def ms(1))
  have "[0 ..< length b + length ps] = [0 ..< length b] @ [length b ..< length b + length ps]"
    by (rule upt_add_eq_append) simp
  then have "map int [0 ..< length b + length ps] = map fst b @ map fst ms"
    by (simp only: map_append gb ms(2))
  then have 1: "map fst (board_of (post_all s g ps) g) = map int [0 ..< length b + length ps]"
    by (simp only: bo map_append)
  have 2: "take (length b) (board_of (post_all s g ps) g) = b"
    by (simp add: bo)
  have 3: "map (subject \<circ> snd) (drop (length b) (board_of (post_all s g ps) g)) =
             map (fst \<circ> snd) ps"
    using ms(3) by (simp add: bo)
  from 1 2 3 show ?thesis
    by (intro conjI)
qed

theorem post_ids_sequential_witness:
  "map_of (boards alice_alone) ''book-club'' = Some [] \<and>
   map fst (board_of (post_all alice_alone ''book-club'' two_posts) ''book-club'') = [0, 1] \<and>
   map (subject \<circ> snd) (board_of (post_all alice_alone ''book-club'' two_posts) ''book-club'') =
     [''Welcome'', ''Again'']"
proof -
  have h1: "server_inv alice_alone"
    by code_simp
  have h2: "map_of (boards alice_alone) ''book-club'' = Some []"
    by code_simp
  have h3: "\<forall>p \<in> set two_posts. member_session alice_alone ''book-club'' (fst p)"
    by code_simp
  have two: "map int [0 ..< length ([] :: board) + length two_posts] = [0, 1]"
    by code_simp
  have subjects: "map (fst \<circ> snd) two_posts = [''Welcome'', ''Again'']"
    by code_simp
  show ?thesis
    using post_ids_sequential [OF h1 h2 h3] h2 two subjects by simp
qed

section \<open>The snapshot of users in a message\<close>

text \<open>
  C7. A post by a member stores the entry \<^const>\<open>new_entry\<close>, whose list of users is a new
  object at \<^term>\<open>next_addr s\<close>, not the list of the group, holding the value that list has
  at that moment. Whatever events follow (connections, joins, leaves, posts, exits), the
  entry stays on the board under its id and its list of users keeps that value.
\<close>

theorem post_snapshot_frozen:
  assumes "server_inv s"
    and "map_of (connected_clients s) client_id = Some c"
    and "map_of (groups s) g = Some a"
    and "name c \<in> set (heap s a)"
    and "map_of (boards s) g = Some b"
  shows "stored (run (fst (handle_post s client_id g subj words today)) es) g (int (length b))
           (new_entry s c subj words today) \<and>
         heap (run (fst (handle_post s client_id g subj words today)) es) (next_addr s) = heap s a \<and>
         a \<noteq> next_addr s"
proof -
  let ?e = "new_entry s c subj words today"
  let ?s' = "fst (handle_post s client_id g subj words today)"
  have s': "?s' = s\<lparr>boards := AList.update g (b @ [(int (length b), ?e)]) (boards s),
                     heap := (heap s)(next_addr s := heap s a),
                     next_addr := Suc (next_addr s)\<rparr>"
    using assms by (rule handle_post_member)
  have inv': "server_inv ?s'"
    using changes_handle_post assms(1) by (rule changes_inv)
  have gb: "gapless b"
    using server_invD2 [OF assms(1) map_of_SomeD [OF assms(5)]] .
  have st: "stored ?s' g (int (length b)) ?e"
    using gapless_fresh [OF gb] by (simp add: s' stored_def AList.update_conv' map_add_def)
  have "keeps ?s' (run ?s' es)"
    using inv' by (rule run_keeps)
  with st have "stored (run ?s' es) g (int (length b)) ?e"
    and "heap (run ?s' es) (users_at_time_of_posting ?e) = heap ?s' (users_at_time_of_posting ?e)"
    by (auto simp: keeps_def)
  moreover have "users_at_time_of_posting ?e = next_addr s"
    by (simp add: new_entry_def)
  moreover have "heap ?s' (next_addr s) = heap s a"
    by (simp add: s')
  moreover have "a \<noteq> next_addr s"
    using group_addr_allocated [OF assms(1,3)] by simp
  ultimately show ?thesis by simp
qed

theorem post_snapshot_frozen_witness:
  "heap alice_alone 1 = [''alice''] \<and>
   heap (run (fst (handle_post alice_alone 0 ''book-club'' ''Welcome'' [''Hi'', ''all'']
                     (DateObj 2024 3 7))) later_events) 2 = [''alice''] \<and>
   members (run (fst (handle_post alice_alone 0 ''book-club'' ''Welcome'' [''Hi'', ''all'']
                        (DateObj 2024 3 7))) later_events) ''book-club'' = Some [''bob'']"
proof -
  have h1: "server_inv alice_alone"
    by code_simp
  have h2: "map_of (connected_clients alice_alone) 0 = Some alice"
    by code_simp
  have h3: "map_of (groups alice_alone) ''book-club'' = Some 1"
    by code_simp
  have l: "heap alice_alone 1 = [''alice'']"
    by code_simp
  then have h4: "name alice \<in> set (heap alice_alone 1)"
    by (simp add: alice_def)
  have h5: "map_of (boards alice_alone) ''book-club'' = Some []"
    by code_simp
  have n: "next_addr alice_alone = 2"
    by code_simp
  have after: "members (run (fst (handle_post alice_alone 0 ''book-club'' ''Welcome''
                  [''Hi'', ''all''] (DateObj 2024 3 7))) later_events) ''book-club'' = Some [''bob'']"
    by code_simp
  show ?thesis
    using post_snapshot_frozen [OF h1 h2 h3 h4 h5, of "''Welcome''" "[''Hi'', ''all'']"
        "DateObj 2024 3 7" later_events] l n after
    by simp
qed

section \<open>Persistence round trip\<close>

text \<open>
  C9. For a state whose dictionaries have each key once (as Python dictionaries do),
  writing the two files at shutdown and loading them at startup succeeds, and the loaded
  state has the same Group Directory by value (names, order, member lists) and the same
  Board Store by value: the same groups, in each the same integer ids in the same order,
  and per message the same sender, subject, body, list of users at the time of posting
  and date text. No session is registered and the id counter is back at 0.
\<close>

theorem persistence_round_trip:
  assumes "dict_ok (groups s)"
    and "dict_ok (boards s)"
    and "\<forall>b \<in> snd ` set (boards s). dict_ok b"
  shows "\<exists>s'. restart s = Inr s' \<and>
              group_directory s' = group_directory s \<and> board_store s' = board_store s \<and>
              client_ids s' = 0 \<and> connected_clients s' = []"
proof -
  from restart_spec [OF assms] obtain s' where
    s': "restart s = Inr s'"
      "dump_groups s' = dump_groups s" "dump_boards s' = dump_boards s"
      "client_ids s' = 0" "connected_clients s' = []"
    by blast
  have "group_directory s' = group_directory s"
    using s'(2) by (simp add: group_directory_def dump_groups_def)
  moreover have "board_store s' = board_store s"
    by (simp only: board_store_dump s'(3))
  ultimately show ?thesis
    using s'(1,4,5) by blast
qed

theorem persistence_round_trip_witness:
  "(case restart book_club_state of Inl e \<Rightarrow> [] | Inr s' \<Rightarrow> group_directory s') =
     [(''default'', [''bob'']), (''book-club'', [''alice'', ''bob''])] \<and>
   (case restart book_club_state of Inl e \<Rightarrow> [] | Inr s' \<Rightarrow> board_store s') =
     [(''default'', []),
      (''book-club'', [(0, ''alice'', ''2024-03-07'', ''Welcome'', ''Hi all'', [''alice''])])]"
proof -
  have h1: "dict_ok (groups book_club_state)"
    by code_simp
  have h2: "dict_ok (boards book_club_state)"
    by code_simp
  have h3: "\<forall>b \<in> snd ` set (boards book_club_state). dict_ok b"
    by code_simp
  have g: "group_directory book_club_state =
             [(''default'', [''bob'']), (''book-club'', [''alice'', ''bob''])]"
    by code_simp
  have b: "board_store book_club_state =
             [(''default'', []),
              (''book-club'', [(0, ''alice'', ''2024-03-07'', ''Welcome'', ''Hi all'', [''alice''])])]"
    by code_simp
  from persistence_round_trip [OF h1 h2 h3] obtain s' where
    "restart book_club_state = Inr s'"
    "group_directory s' = group_directory book_club_state"
    "board_store s' = board_store book_club_state"
    by blast
  with g b show ?thesis
    by simp
qed

end
